theory Spec2Isabelle
  imports Complex_Main "HOL-Library.AList" "HOL-Library.Log_Nat"
begin

section \<open>Strings\<close>

text \<open>
  A Python \<open>str\<close> is modelled as a \<open>string\<close>; each character stands for the code point
  of the same number, so the model covers the strings over the code points 0 to 255
  and \<open>length\<close> is Python's \<open>len\<close> on them.

  \<open>is_space\<close> is the whitespace test behind \<open>str.strip()\<close>, \<open>str.split()\<close> and the
  regular expression \<open>\s\<close> on such a string: the code points 9 to 13, 28 to 32, 133 and
  160.
\<close>

definition is_space :: "char \<Rightarrow> bool" where
  "is_space c = (c \<in> set [CHR 0x09, CHR 0x0A, CHR 0x0B, CHR 0x0C, CHR 0x0D,
                          CHR 0x1C, CHR 0x1D, CHR 0x1E, CHR 0x1F, CHR 0x20,
                          CHR 0x85, CHR 0xA0])"

text \<open>\<open>s.strip()\<close>: whitespace removed at both ends.\<close>

definition py_strip :: "string \<Rightarrow> string" where
  "py_strip s = rev (dropWhile is_space (rev (dropWhile is_space s)))"

text \<open>
  \<open>s.split()\<close>: the maximal runs of non-whitespace characters, in order. \<open>split_aux\<close>
  scans the string once; \<open>acc\<close> is the word being read.
\<close>

fun split_aux :: "string \<Rightarrow> string \<Rightarrow> string list" where
  "split_aux acc [] = (if acc = [] then [] else [acc])"
| "split_aux acc (c # cs) =
     (if is_space c then (if acc = [] then split_aux [] cs else acc # split_aux [] cs)
      else split_aux (acc @ [c]) cs)"

definition py_split :: "string \<Rightarrow> string list" where
  "py_split s = split_aux [] s"

text \<open>\<open>sep.join(ws)\<close>.\<close>

fun py_join :: "string \<Rightarrow> string list \<Rightarrow> string" where
  "py_join sep [] = []"
| "py_join sep [w] = w"
| "py_join sep (w # v # ws) = w @ sep @ py_join sep (v # ws)"

text \<open>\<open>normalize_text\<close>: \<open>" ".join(s.strip().split())\<close>.\<close>

definition normalize_text :: "string \<Rightarrow> string" where
  "normalize_text s = py_join '' '' (py_split (py_strip s))"

text \<open>
  \<open>re.split(r"\s+", text)\<close>: the pieces between the maximal whitespace runs; a run at
  either end leaves an empty piece there. \<open>inws\<close> tells that the scan is inside a run.
\<close>

fun re_split_aux :: "bool \<Rightarrow> string \<Rightarrow> string \<Rightarrow> string list" where
  "re_split_aux inws acc [] = [acc]"
| "re_split_aux inws acc (c # cs) =
     (if is_space c then (if inws then re_split_aux True acc cs
                          else acc # re_split_aux True [] cs)
      else re_split_aux False (acc @ [c]) cs)"

definition re_split_ws :: "string \<Rightarrow> string list" where
  "re_split_ws s = re_split_aux False [] s"

text \<open>\<open>tokenize_source_text\<close>: the words of the quote, punctuation left on them.\<close>

definition tokenize_source_text :: "string \<Rightarrow> string list" where
  "tokenize_source_text text =
     (let t = normalize_text text in if t = [] then [] else re_split_ws t)"

text \<open>
  \<open>load_word_bank\<close>, on the lines of the file: each line stripped, empty lines and lines
  that start with \<open>#\<close> left out.
\<close>

fun load_word_bank :: "string list \<Rightarrow> string list" where
  "load_word_bank [] = []"
| "load_word_bank (line # rest) =
     (let s = py_strip line in
      if s = [] then load_word_bank rest
      else if hd s = CHR ''#'' then load_word_bank rest
      else s # load_word_bank rest)"

section \<open>The dictionary loader\<close>

text \<open>
  The value \<open>json.load\<close> returns. An object is the list of its entries in the order of
  the file (a Python \<open>dict\<close> keeps insertion order); its keys are strings, so the tests
  \<open>isinstance(k, str)\<close> of the loader hold for every entry. The keys of a \<open>dict\<close> are
  distinct; nothing below depends on that.
\<close>

datatype json =
    JNull
  | JBool bool
  | JNum rat
  | JStr string
  | JList "json list"
  | JObj "(string \<times> json) list"

datatype error = ValueError string | OverflowError

text \<open>
  A \<open>dict[str, list[str]]\<close> is an association list in insertion order:
  \<open>out[k] = v\<close> is \<open>AList.update k v out\<close> (the value replaced in place, a new key
  appended), \<open>out.get(k)\<close> is \<open>map_of out k\<close>.
\<close>

type_synonym steno_dict = "(string \<times> string list) list"

fun is_jstr :: "json \<Rightarrow> bool" where
  "is_jstr (JStr _) = True"
| "is_jstr _ = False"

fun the_jstr :: "json \<Rightarrow> string" where
  "the_jstr (JStr s) = s"
| "the_jstr _ = []"

definition looks_like_stroke :: "string \<Rightarrow> bool" where
  "looks_like_stroke s =
     ((\<forall>c \<in> set s. c \<in> set ''ABCDEFGHIJKLMNOPQRSTUVWXYZabcdefghijklmnopqrstuvwxyz-/*0123456789'')
      \<and> (CHR ''/'' \<in> set s \<or> CHR ''-'' \<in> set s \<or> CHR ''*'' \<in> set s))"

definition key_strokeish :: "(string \<times> json) list \<Rightarrow> nat" where
  "key_strokeish items = length (filter (\<lambda>(k, v). looks_like_stroke k) items)"

definition val_stringish :: "(string \<times> json) list \<Rightarrow> nat" where
  "val_stringish items = length (filter (\<lambda>(k, v). is_jstr v) items)"

text \<open>The test of line 76, with Python's floor division \<open>//\<close>.\<close>

definition should_invert :: "(string \<times> json) list \<Rightarrow> bool" where
  "should_invert items =
     (key_strokeish items \<ge> max 1 (length items div 4)
      \<and> val_stringish items \<ge> max 1 ((length items * 3) div 4))"

text \<open>
  The loop of the stroke-to-translation branch:
  \<open>out.setdefault(t, []).append(stroke)\<close> for every entry whose value is a string.
\<close>

fun invert_loop :: "(string \<times> json) list \<Rightarrow> steno_dict \<Rightarrow> steno_dict" where
  "invert_loop [] out = out"
| "invert_loop ((stroke, translation) # rest) out =
     (if \<not> is_jstr translation then invert_loop rest out
      else
        let t = normalize_text (the_jstr translation) in
        invert_loop rest
          (case map_of out t of
             None \<Rightarrow> AList.update t [stroke] out
           | Some ss \<Rightarrow> AList.update t (ss @ [stroke]) out))"

text \<open>
  The loop of the translation-to-strokes branch: a string value is wrapped in a list, a
  list of strings is stored as it is, any other value leaves \<open>out\<close> alone.
\<close>

fun direct_loop :: "(string \<times> json) list \<Rightarrow> steno_dict \<Rightarrow> steno_dict" where
  "direct_loop [] out = out"
| "direct_loop ((translation, strokes) # rest) out =
     (let t = normalize_text translation in
      direct_loop rest
        (case strokes of
           JStr s \<Rightarrow> AList.update t [s] out
         | JList xs \<Rightarrow> (if list_all is_jstr xs then AList.update t (map the_jstr xs) out
                        else out)
         | _ \<Rightarrow> out))"

text \<open>\<open>load_dictionary_json\<close>, on the parsed content of the file.\<close>

fun load_dictionary_json :: "json \<Rightarrow> error + steno_dict" where
  "load_dictionary_json (JObj items) =
     (if items = [] then Inr []
      else if should_invert items then Inr (invert_loop items [])
      else Inr (direct_loop items []))"
| "load_dictionary_json _ = Inl (ValueError ''Dictionary JSON must be an object.'')"

section \<open>The hint lookup\<close>

text \<open>
  \<open>word.strip(".,!?;:\"'()[]{}")\<close>: the listed characters removed at both ends.
\<close>

definition hint_punct :: "char list" where
  "hint_punct = [CHR ''.'', CHR '','', CHR ''!'', CHR ''?'', CHR '';'', CHR '':'', CHR 0x22,
                 CHR 0x27, CHR ''('', CHR '')'', CHR ''['', CHR '']'', CHR ''{'', CHR ''}'']"

definition py_strip_chars :: "char list \<Rightarrow> string \<Rightarrow> string" where
  "py_strip_chars cs s =
     rev (dropWhile (\<lambda>c. c \<in> set cs) (rev (dropWhile (\<lambda>c. c \<in> set cs) s)))"

text \<open>
  \<open>str.lower()\<close> on the code points 0 to 255: the capitals A to Z and the capitals 192
  to 222 other than the multiplication sign 215 move up by 32.
\<close>

definition py_lower_char :: "char \<Rightarrow> char" where
  "py_lower_char c =
     (let n = (of_char c :: nat) in
      if (65 \<le> n \<and> n \<le> 90) \<or> (192 \<le> n \<and> n \<le> 222 \<and> n \<noteq> 215)
      then char_of (n + 32) else c)"

definition py_lower :: "string \<Rightarrow> string" where
  "py_lower s = map py_lower_char s"

text \<open>The key \<open>_hint_for\<close> looks up: \<open>clean\<close> of line 610.\<close>

definition hint_clean :: "string \<Rightarrow> string" where
  "hint_clean word = py_lower (py_strip_chars hint_punct word)"

text \<open>
  \<open>_hint_for\<close>: the strokes shown for a word, at most \<open>max_hints\<close> of them, and whether
  more were left out; \<open>None\<close> where the code answers that no mapping was found. The
  rendering of the strokes as one text is left out.
\<close>

definition hint_for :: "steno_dict \<Rightarrow> string \<Rightarrow> nat \<Rightarrow> (string list \<times> bool) option" where
  "hint_for d word max_hints =
     (case map_of d (hint_clean word) of
        None \<Rightarrow> None
      | Some strokes \<Rightarrow>
          (if strokes = [] then None
           else Some (take max_hints strokes, length strokes > max_hints)))"

section \<open>The practice session\<close>

text \<open>
  The fields of \<open>PloverPracticeApp\<close> that the practice flow reads and writes, with the
  content of the entry widget (\<open>var_input\<close>). The labels, the colours, the file paths and
  the two time stamps are left out: no transition below reads them. The counters are
  Python integers. The cursor \<open>quote_idx\<close> is set to 0 and incremented, never
  decremented, so it is a natural number; \<open>len(self.quote_tokens) - 1\<close> is computed
  only where the token sequence is not empty.
\<close>

record session =
  word_bank :: "string list"
  steno_dict :: steno_dict
  source_mode :: string
  quote_tokens :: "string list"
  quote_idx :: nat
  pending_advance :: bool
  current_word :: "string option"
  total_attempts :: int
  correct_attempts :: int
  total_correct_chars :: int
  streak :: int
  best_streak :: int
  var_input :: string

text \<open>\<open>not self.current_word\<close>: no word, or the empty word.\<close>

definition no_word :: "string option \<Rightarrow> bool" where
  "no_word w = (case w of None \<Rightarrow> True | Some t \<Rightarrow> t = [])"

text \<open>
  \<open>random.choice(xs)\<close> on a non-empty list; the random draw is the number \<open>r\<close> that
  every transition which may draw takes as an argument. The code draws from the bank
  only after it has found the bank non-empty, and reads a token only at an index that
  the test before the read has found inside the sequence, so no read below is out of
  range.
\<close>

definition random_choice :: "nat \<Rightarrow> 'a list \<Rightarrow> 'a" where
  "random_choice r xs = xs ! (r mod length xs)"

text \<open>
  \<open>_set_current\<close>. \<open>self.var_input.set("")\<close> empties the entry; the write trace
  \<open>on_text_change\<close>, where Tk runs it on this write, finds the entry empty and changes
  labels only (lemma \<open>on_text_change_empty_input\<close> below).
\<close>

definition set_current :: "string \<Rightarrow> session \<Rightarrow> session" where
  "set_current text s = s\<lparr>current_word := Some text, var_input := []\<rparr>"

definition pick_new_word_from_bank :: "nat \<Rightarrow> session \<Rightarrow> session" where
  "pick_new_word_from_bank r s =
     (if word_bank s = [] then s\<lparr>current_word := None\<rparr>
      else set_current (random_choice r (word_bank s)) s)"

definition maybe_start :: "nat \<Rightarrow> session \<Rightarrow> session" where
  "maybe_start r s =
     (if current_word s = None \<and> word_bank s \<noteq> []
      then pick_new_word_from_bank r (s\<lparr>source_mode := ''bank_random''\<rparr>)
      else s)"

definition advance_target :: "nat \<Rightarrow> session \<Rightarrow> session" where
  "advance_target r s0 =
     (let s = s0\<lparr>pending_advance := False\<rparr> in
      if source_mode s = ''quote_seq'' then
        (if quote_tokens s = [] then s
         else if quote_idx s < length (quote_tokens s) - 1 then
           (let s1 = s\<lparr>quote_idx := quote_idx s + 1\<rparr>
            in set_current (quote_tokens s1 ! quote_idx s1) s1)
         else s\<lparr>current_word := None\<rparr>)
      else if source_mode s = ''bank_random'' then
        (if word_bank s = [] then s else pick_new_word_from_bank r s)
      else
        (if word_bank s \<noteq> [] then pick_new_word_from_bank r s else s))"

definition on_next_word :: "nat \<Rightarrow> session \<Rightarrow> session" where
  "on_next_word r s0 =
     (let s = s0\<lparr>pending_advance := False, streak := 0\<rparr> in
      if source_mode s = ''quote_seq'' then
        (if quote_tokens s = [] then s
         else if quote_idx s < length (quote_tokens s) - 1 then
           (let s1 = s\<lparr>quote_idx := quote_idx s + 1\<rparr>
            in set_current (quote_tokens s1 ! quote_idx s1) s1)
         else s)
      else if word_bank s = [] then s
      else pick_new_word_from_bank r s)"

text \<open>\<open>_count_correct_and_schedule_advance\<close>: the correct-attempt transition.\<close>

definition count_correct_and_schedule_advance :: "nat \<Rightarrow> session \<Rightarrow> session" where
  "count_correct_and_schedule_advance r s =
     (if pending_advance s then s
      else
        let target = normalize_text (case current_word s of None \<Rightarrow> [] | Some w \<Rightarrow> w);
            s1 = s\<lparr>pending_advance := True\<rparr>;
            s2 = s1\<lparr>correct_attempts := correct_attempts s1 + 1\<rparr>;
            s3 = s2\<lparr>total_attempts := total_attempts s2 + 1\<rparr>;
            s4 = s3\<lparr>streak := streak s3 + 1\<rparr>;
            s5 = s4\<lparr>best_streak := max (best_streak s4) (streak s4)\<rparr>;
            s6 = s5\<lparr>total_correct_chars := total_correct_chars s5 + int (length target)\<rparr>
        in advance_target r s6)"

definition on_submit :: "nat \<Rightarrow> session \<Rightarrow> session" where
  "on_submit r s =
     (if no_word (current_word s) \<or> pending_advance s then s
      else
        let typed = normalize_text (var_input s);
            target = normalize_text (the (current_word s))
        in if typed = target then count_correct_and_schedule_advance r s else s)"

text \<open>
  \<open>on_text_change\<close>. The empty entry, the prefix of the target and the mismatch differ in
  the labels they set and leave the fields of the record alone.
\<close>

definition on_text_change :: "nat \<Rightarrow> session \<Rightarrow> session" where
  "on_text_change r s =
     (if no_word (current_word s) then s
      else
        let typed = normalize_text (var_input s);
            target = normalize_text (the (current_word s))
        in if typed = [] then s
           else if typed = target then count_correct_and_schedule_advance r s
           else if take (length typed) target = typed then s
           else s)"

text \<open>\<open>restart_quote\<close>; \<open>src\<close> is the content of the source text widget.\<close>

definition restart_quote :: "string \<Rightarrow> session \<Rightarrow> session" where
  "restart_quote src s0 =
     (let raw = py_strip src;
          s = s0\<lparr>quote_tokens := tokenize_source_text raw, quote_idx := 0\<rparr>
      in if quote_tokens s = [] then s\<lparr>current_word := None\<rparr>
         else set_current (quote_tokens s ! quote_idx s) s)"

definition use_quote_mode :: "string \<Rightarrow> session \<Rightarrow> session" where
  "use_quote_mode src s = restart_quote src (s\<lparr>source_mode := ''quote_seq''\<rparr>)"

definition use_bank_random :: "nat \<Rightarrow> session \<Rightarrow> session" where
  "use_bank_random r s0 =
     (let s = s0\<lparr>source_mode := ''bank_random''\<rparr> in
      if word_bank s = [] then s else pick_new_word_from_bank r s)"

text \<open>
  \<open>on_load_word_bank\<close>; \<open>file\<close> is the list of the lines of the chosen file, \<open>None\<close> when
  the dialog is cancelled or the file cannot be read.
\<close>

definition on_load_word_bank :: "string list option \<Rightarrow> nat \<Rightarrow> session \<Rightarrow> session" where
  "on_load_word_bank file r s =
     (case file of
        None \<Rightarrow> s
      | Some lines \<Rightarrow>
          (let words = load_word_bank lines in
           if words = [] then s else maybe_start r (s\<lparr>word_bank := words\<rparr>)))"

text \<open>
  \<open>on_load_dict\<close>; \<open>file\<close> is the parsed content of the chosen file, \<open>None\<close> when the
  dialog is cancelled or the file is not JSON.
\<close>

definition on_load_dict :: "json option \<Rightarrow> session \<Rightarrow> session" where
  "on_load_dict file s =
     (case file of
        None \<Rightarrow> s
      | Some raw \<Rightarrow>
          (case load_dictionary_json raw of
             Inl e \<Rightarrow> s
           | Inr d \<Rightarrow> s\<lparr>steno_dict := d\<rparr>))"

definition reset_session :: "nat \<Rightarrow> session \<Rightarrow> session" where
  "reset_session r s =
     maybe_start r
       (s\<lparr>pending_advance := False, current_word := None,
          total_attempts := 0, correct_attempts := 0, total_correct_chars := 0,
          streak := 0, best_streak := 0, var_input := []\<rparr>)"

text \<open>
  The state \<open>__init__\<close> leaves: the defaults, \<open>_reset_session\<close>, then
  \<open>_autoload_last_files\<close> with the files the configuration names (\<open>None\<close> for a file
  that is not named, is missing or fails to load).
\<close>

definition fresh_session :: session where
  "fresh_session =
     \<lparr>word_bank = [], steno_dict = [], source_mode = ''bank_random'',
      quote_tokens = [], quote_idx = 0, pending_advance = False, current_word = None,
      total_attempts = 0, correct_attempts = 0, total_correct_chars = 0,
      streak = 0, best_streak = 0, var_input = []\<rparr>"

definition autoload_last_files ::
  "string list option \<Rightarrow> json option \<Rightarrow> nat \<Rightarrow> session \<Rightarrow> session" where
  "autoload_last_files bank dct r s =
     (let s1 = (case bank of None \<Rightarrow> s
                | Some lines \<Rightarrow> s\<lparr>word_bank := load_word_bank lines\<rparr>);
          s2 = (case dct of None \<Rightarrow> s1
                | Some raw \<Rightarrow> (case load_dictionary_json raw of
                                 Inl e \<Rightarrow> s1
                               | Inr d \<Rightarrow> s1\<lparr>steno_dict := d\<rparr>))
      in maybe_start r s2)"

definition app_init :: "string list option \<Rightarrow> json option \<Rightarrow> nat \<Rightarrow> nat \<Rightarrow> session" where
  "app_init bank dct r0 r1 = autoload_last_files bank dct r1 (reset_session r0 fresh_session)"

text \<open>
  The events of the user interface. Typing replaces the content of the entry and runs
  the write trace; the Return key runs \<open>on_submit\<close>; the Escape key empties the entry,
  and the write trace on the empty entry draws no random number. The numbers an event
  carries are the random draws of the transition it runs.
\<close>

datatype event =
    LoadWordBank "string list option" nat
  | LoadDict "json option"
  | NextWord nat
  | ResetSession nat
  | UseQuoteMode string
  | RestartQuote string
  | UseBankRandom nat
  | TypeText string nat
  | Submit nat
  | Escape

fun step :: "event \<Rightarrow> session \<Rightarrow> session" where
  "step (LoadWordBank file r) s = on_load_word_bank file r s"
| "step (LoadDict file) s = on_load_dict file s"
| "step (NextWord r) s = on_next_word r s"
| "step (ResetSession r) s = reset_session r s"
| "step (UseQuoteMode src) s = use_quote_mode src s"
| "step (RestartQuote src) s = restart_quote src s"
| "step (UseBankRandom r) s = use_bank_random r s"
| "step (TypeText v r) s = on_text_change r (s\<lparr>var_input := v\<rparr>)"
| "step (Submit r) s = on_submit r s"
| "step Escape s = on_text_change 0 (s\<lparr>var_input := []\<rparr>)"

fun run :: "event list \<Rightarrow> session \<Rightarrow> session" where
  "run [] s = s"
| "run (e # es) s = run es (step e s)"

inductive reachable :: "session \<Rightarrow> bool" where
  reachable_init: "reachable (app_init bank dct r0 r1)"
| reachable_step: "reachable s \<Longrightarrow> reachable (step e s)"

section \<open>The statistics\<close>

text \<open>
  Rounding to the nearest integer, a tie to the even one: \<open>round\<close> of Python on a
  float, and the rounding of the significand in binary floating point.
\<close>

definition round_half_even :: "rat \<Rightarrow> int" where
  "round_half_even x =
     (let f = \<lfloor>x\<rfloor>; d = x - of_int f in
      if d < 1 / 2 then f
      else if d > 1 / 2 then f + 1
      else if even f then f else f + 1)"

text \<open>
  A Python \<open>float\<close> is a binary64 number; a finite one is modelled by the rational
  number it stands for. For a positive \<open>x\<close>, \<open>ilog2 x\<close> is the exponent \<open>e\<close> with
  \<open>2^e \<le> x < 2^(e+1)\<close> (lemmas \<open>ilog2_lower\<close> and \<open>ilog2_upper\<close> below).
  \<open>fl_round x\<close> is the multiple of the unit in the last place nearest to \<open>x\<close>, a tie to
  the even multiple; the unit is \<open>2^(e-52)\<close> for a significand of 53 bits, and
  \<open>2^(-1074)\<close> among the subnormal numbers. \<open>to_float x\<close> is \<open>None\<close> where the rounded
  value lies beyond the largest float.
\<close>

definition ilog2 :: "rat \<Rightarrow> int" where
  "ilog2 x =
     (let (p, q) = quotient_of x; e0 = bitlen p - bitlen q
      in if 2 powi e0 \<le> x then e0 else e0 - 1)"

definition fl_round :: "rat \<Rightarrow> rat" where
  "fl_round x =
     (if x = 0 then 0
      else let u = 2 powi (max (ilog2 \<bar>x\<bar> - 52) (- 1074))
           in of_int (round_half_even (x / u)) * u)"

definition to_float :: "rat \<Rightarrow> rat option" where
  "to_float x = (let r = fl_round x in if \<bar>r\<bar> < 2 ^ 1024 then Some r else None)"

text \<open>
  \<open>_compute_accuracy\<close>: \<open>int(round(100.0 * (correct_attempts / total_attempts)))\<close>.
  The quotient of two Python integers is the float nearest to the exact quotient, and
  \<open>OverflowError\<close> where that is beyond the floats. The product is rounded to a float
  again; where it is infinite, \<open>round\<close> raises \<open>OverflowError\<close>. \<open>round\<close> of a
  float is an integer, which \<open>int\<close> returns as it is.
\<close>

definition compute_accuracy :: "session \<Rightarrow> error + int" where
  "compute_accuracy s =
     (if total_attempts s = 0 then Inr 0
      else
        case to_float (of_int (correct_attempts s) / of_int (total_attempts s)) of
          None \<Rightarrow> Inl OverflowError
        | Some q \<Rightarrow>
            (case to_float (100 * q) of
               None \<Rightarrow> Inl OverflowError
             | Some y \<Rightarrow> Inr (round_half_even y)))"

section \<open>Predicates of the properties\<close>

text \<open>A word as \<open>str.split()\<close> yields it: not empty, no whitespace in it.\<close>

definition good_word :: "string \<Rightarrow> bool" where
  "good_word w = (w \<noteq> [] \<and> (\<forall>c \<in> set w. \<not> is_space c))"

text \<open>
  What every transition keeps: the two attempt counters are equal, the words of the bank
  and the active target have a character that is not whitespace, the tokens are words,
  and the cursor is inside a non-empty token sequence.
\<close>

definition wf_session :: "session \<Rightarrow> bool" where
  "wf_session s =
     (correct_attempts s = total_attempts s \<and> 0 \<le> total_attempts s
      \<and> (\<forall>w \<in> set (word_bank s). normalize_text w \<noteq> [])
      \<and> (\<forall>w \<in> set (quote_tokens s). good_word w)
      \<and> (\<forall>t. current_word s = Some t \<longrightarrow> normalize_text t \<noteq> [])
      \<and> (quote_tokens s = [] \<or> quote_idx s < length (quote_tokens s)))"

text \<open>
  A session with no word bank: the quote \<open>hello\<close> is started in quote mode, then the
  mode is switched to the word bank. The target \<open>hello\<close> stays active.
\<close>

definition stuck_session :: session where
  "stuck_session = run [UseQuoteMode ''hello'', UseBankRandom 0] (app_init None None 0 0)"

text \<open>The events that restart the quote: the two that run \<open>restart_quote\<close>.\<close>

fun is_restart :: "event \<Rightarrow> bool" where
  "is_restart (UseQuoteMode src) = True"
| "is_restart (RestartQuote src) = True"
| "is_restart _ = False"

text \<open>
  What one run of the correct-attempt transition on the target \<open>t\<close> does to the
  counters, from \<open>s\<close> to \<open>s'\<close>.
\<close>

definition counted_once :: "string \<Rightarrow> session \<Rightarrow> session \<Rightarrow> bool" where
  "counted_once t s s' =
     (total_attempts s' = total_attempts s + 1
      \<and> correct_attempts s' = correct_attempts s + 1
      \<and> streak s' = streak s + 1
      \<and> best_streak s' = max (best_streak s) (streak s + 1)
      \<and> total_correct_chars s' = total_correct_chars s + int (length (normalize_text t)))"

text \<open>
  A session with no word bank in which the one-word quote \<open>hello\<close> has been typed to
  its end.
\<close>

definition quote_done :: session where
  "quote_done = run [UseQuoteMode ''hello'', TypeText ''hello'' 0] (app_init None None 0 0)"

text \<open>
  A session with no word bank in which the quote \<open>good night.\<close> has been started, and
  the same session after \<open>go\<close> has been typed.
\<close>

definition quote_started :: session where
  "quote_started = run [UseQuoteMode ''good night.''] (app_init None None 0 0)"


text \<open>A session with no word bank in which the one-word quote \<open>cat\<close> has been started.\<close>

definition quote_last :: session where
  "quote_last = run [UseQuoteMode ''cat''] (app_init None None 0 0)"


text \<open>
  The classification of a key in the words of the specification: every character is a
  letter (A to Z, a to z), a digit (0 to 9) or one of the separators \<open>-\<close>, \<open>/\<close>,
  \<open>*\<close>, and a separator occurs.
\<close>

definition is_ascii_letter :: "char \<Rightarrow> bool" where
  "is_ascii_letter c =
     (let n = (of_char c :: nat) in (65 \<le> n \<and> n \<le> 90) \<or> (97 \<le> n \<and> n \<le> 122))"

definition is_ascii_digit :: "char \<Rightarrow> bool" where
  "is_ascii_digit c = (let n = (of_char c :: nat) in 48 \<le> n \<and> n \<le> 57)"

definition is_separator :: "char \<Rightarrow> bool" where
  "is_separator c = (c = CHR ''-'' \<or> c = CHR ''/'' \<or> c = CHR ''*'')"

definition stroke_shaped :: "string \<Rightarrow> bool" where
  "stroke_shaped k =
     ((\<forall>c \<in> set k. is_ascii_letter c \<or> is_ascii_digit c \<or> is_separator c)
      \<and> (\<exists>c \<in> set k. is_separator c))"

text \<open>
  The test for the orientation in the words of the specification, with the quotients
  \<open>N/4\<close> and \<open>3N/4\<close> rounded down (\<open>orientation_test\<close>) and taken exactly
  (\<open>exact_quarter_test\<close>).
\<close>

definition orientation_test :: "(string \<times> json) list \<Rightarrow> bool" where
  "orientation_test items =
     (let n = length items;
          ks = length (filter (\<lambda>(k, v). stroke_shaped k) items);
          vs = length (filter (\<lambda>(k, v). is_jstr v) items)
      in ks \<ge> max 1 (n div 4) \<and> vs \<ge> max 1 ((3 * n) div 4))"

definition exact_quarter_test :: "(string \<times> json) list \<Rightarrow> bool" where
  "exact_quarter_test items =
     (let n = (of_nat (length items) :: rat);
          ks = (of_nat (length (filter (\<lambda>(k, v). stroke_shaped k) items)) :: rat);
          vs = (of_nat (length (filter (\<lambda>(k, v). is_jstr v) items)) :: rat)
      in ks \<ge> max 1 (n / 4) \<and> vs \<ge> max 1 (3 * n / 4))"

text \<open>
  The strokes of the entries whose translation normalises to \<open>t\<close>, in the order of the
  entries: what the stroke-to-translation branch is to store under \<open>t\<close>.
\<close>

definition strokes_of :: "string \<Rightarrow> (string \<times> json) list \<Rightarrow> string list" where
  "strokes_of t items =
     map fst (filter (\<lambda>(k, v). is_jstr v \<and> normalize_text (the_jstr v) = t) items)"

text \<open>
  The stroke list an entry of the translation-to-strokes orientation carries, if its value
  has a supported shape; and the stroke lists of the entries whose key normalises to
  \<open>t\<close>, in the order of the entries.
\<close>

fun json_strokes :: "json \<Rightarrow> string list option" where
  "json_strokes (JStr s) = Some [s]"
| "json_strokes (JList xs) = (if list_all is_jstr xs then Some (map the_jstr xs) else None)"
| "json_strokes _ = None"

definition entries_of :: "string \<Rightarrow> (string \<times> json) list \<Rightarrow> string list list" where
  "entries_of t items =
     map (\<lambda>(k, v). the (json_strokes v))
       (filter (\<lambda>(k, v). normalize_text k = t \<and> json_strokes v \<noteq> None) items)"

text \<open>Three dictionary objects used as concrete inputs.\<close>

definition five_entries :: "(string \<times> json) list" where
  "five_entries = [(''A-B'', JStr ''x''), (''b'', JStr ''y''), (''c'', JStr ''z''),
                   (''d'', JStr ''u''), (''e'', JStr ''w'')]"

definition two_strokes :: "(string \<times> json) list" where
  "two_strokes = [(''KAT'', JStr ''cat''), (''KA/AT'', JStr '' cat '')]"

definition two_spellings :: "(string \<times> json) list" where
  "two_spellings = [(''good  night'', JStr ''S1''), ('' good night '', JList [JStr ''S2'', JStr ''S3''])]"

section \<open>Normalisation and tokenisation\<close>

lemma is_space_blank [simp]: "is_space CHR '' ''"
  by (simp add: is_space_def)

lemma split_aux_concat:
  "concat (split_aux acc s) = acc @ filter (\<lambda>c. \<not> is_space c) s"
  by (induction s arbitrary: acc) auto

lemma split_aux_good:
  "\<forall>c \<in> set acc. \<not> is_space c \<Longrightarrow> w \<in> set (split_aux acc s) \<Longrightarrow> good_word w"
proof (induction s arbitrary: acc)
  case Nil
  then show ?case by (auto simp: good_word_def split: if_splits)
next
  case (Cons c cs)
  show ?case
  proof (cases "is_space c")
    case True
    with Cons.prems have "w = acc \<and> acc \<noteq> [] \<or> w \<in> set (split_aux [] cs)"
      by (auto split: if_splits)
    then show ?thesis
      using Cons.IH [of "[]"] Cons.prems(1) by (auto simp: good_word_def)
  next
    case False
    with Cons.prems have "w \<in> set (split_aux (acc @ [c]) cs)" by simp
    then show ?thesis
      using Cons.IH [of "acc @ [c]"] Cons.prems(1) False by auto
  qed
qed

lemma py_split_good: "\<forall>w \<in> set (py_split s). good_word w"
  using split_aux_good [of "[]" _ s] by (simp add: py_split_def)

lemma split_aux_word:
  "\<forall>c \<in> set w. \<not> is_space c \<Longrightarrow> split_aux acc (w @ rest) = split_aux (acc @ w) rest"
  by (induction w arbitrary: acc) auto

lemma split_aux_join:
  "\<forall>w \<in> set ws. good_word w \<Longrightarrow> good_word v \<Longrightarrow>
   split_aux [] (py_join '' '' (v # ws)) = v # ws"
proof (induction ws arbitrary: v)
  case Nil
  then show ?case
    using split_aux_word [of v "[]" "[]"] by (simp add: good_word_def)
next
  case (Cons u us)
  have "split_aux [] (v @ '' '' @ py_join '' '' (u # us)) =
        split_aux v ('' '' @ py_join '' '' (u # us))"
    using Cons.prems split_aux_word [of v "[]"] by (simp add: good_word_def)
  also have "\<dots> = v # split_aux [] (py_join '' '' (u # us))"
    using Cons.prems by (simp add: good_word_def)
  also have "\<dots> = v # u # us"
    using Cons by simp
  finally show ?case by simp
qed

lemma py_split_join:
  "\<forall>w \<in> set ws. good_word w \<Longrightarrow> py_split (py_join '' '' ws) = ws"
  by (cases ws) (simp_all add: py_split_def split_aux_join)

lemma split_aux_dropWhile:
  "split_aux [] (dropWhile is_space s) = split_aux [] s"
  by (induction s) auto

lemma split_aux_spaces:
  "\<forall>c \<in> set t. is_space c \<Longrightarrow> split_aux acc t = (if acc = [] then [] else [acc])"
  by (induction t arbitrary: acc) auto

lemma split_aux_trailing:
  "\<forall>c \<in> set t. is_space c \<Longrightarrow> split_aux acc (s @ t) = split_aux acc s"
  by (induction s arbitrary: acc) (auto simp: split_aux_spaces)

lemma rev_dropWhile_rev:
  "rev (dropWhile P (rev s)) @ rev (takeWhile P (rev s)) = s"
proof -
  have "rev (takeWhile P (rev s) @ dropWhile P (rev s)) = s" by simp
  then show ?thesis by (simp only: rev_append)
qed

lemma split_aux_rstrip:
  "split_aux acc (rev (dropWhile is_space (rev s))) = split_aux acc s"
proof -
  have "\<forall>c \<in> set (rev (takeWhile is_space (rev s))). is_space c"
    by (auto dest: set_takeWhileD)
  then have "split_aux acc (rev (dropWhile is_space (rev s)) @ rev (takeWhile is_space (rev s)))
             = split_aux acc (rev (dropWhile is_space (rev s)))"
    by (rule split_aux_trailing)
  then show ?thesis by (simp only: rev_dropWhile_rev)
qed

lemma py_split_strip: "py_split (py_strip s) = py_split s"
  by (simp add: py_split_def py_strip_def split_aux_rstrip split_aux_dropWhile)

lemma normalize_text_split: "normalize_text s = py_join '' '' (py_split s)"
  by (simp add: normalize_text_def py_split_strip)

lemma py_split_normalize: "py_split (normalize_text s) = py_split s"
  by (simp add: normalize_text_split py_split_join py_split_good)

lemma normalize_text_idem: "normalize_text (normalize_text s) = normalize_text s"
  by (metis normalize_text_split py_split_normalize)

lemma normalize_eq_iff: "normalize_text a = normalize_text b \<longleftrightarrow> py_split a = py_split b"
  by (metis normalize_text_split py_split_normalize)

lemma py_split_concat: "concat (py_split s) = filter (\<lambda>c. \<not> is_space c) s"
  by (simp add: py_split_def split_aux_concat)

lemma py_join_empty:
  "\<forall>w \<in> set ws. good_word w \<Longrightarrow> py_join sep ws = [] \<longleftrightarrow> ws = []"
  by (induction sep ws rule: py_join.induct) (auto simp: good_word_def)

lemma normalize_text_empty_iff: "normalize_text s = [] \<longleftrightarrow> (\<forall>c \<in> set s. is_space c)"
proof -
  have "normalize_text s = [] \<longleftrightarrow> py_split s = []"
    by (simp add: normalize_text_split py_join_empty py_split_good)
  also have "\<dots> \<longleftrightarrow> filter (\<lambda>c. \<not> is_space c) s = []"
  proof
    assume "py_split s = []"
    then show "filter (\<lambda>c. \<not> is_space c) s = []"
      using py_split_concat [of s] by simp
  next
    assume "filter (\<lambda>c. \<not> is_space c) s = []"
    then have "\<forall>c \<in> set s. is_space c" by (simp add: filter_empty_conv)
    then show "py_split s = []" by (simp add: py_split_def split_aux_spaces)
  qed
  finally show ?thesis by (simp add: filter_empty_conv)
qed

lemma filter_py_join:
  "\<forall>w \<in> set ws. good_word w \<Longrightarrow>
   filter (\<lambda>c. \<not> is_space c) (py_join '' '' ws) = concat ws"
  by (induction "'' ''" ws rule: py_join.induct) (auto simp: good_word_def)

lemma normalize_text_nonspace:
  "filter (\<lambda>c. \<not> is_space c) (normalize_text s) = filter (\<lambda>c. \<not> is_space c) s"
  by (simp add: normalize_text_split filter_py_join py_split_good py_split_concat)

lemma good_word_normalize: "good_word w \<Longrightarrow> normalize_text w = w"
  using py_split_join [of "[w]"] by (simp add: normalize_text_split)


lemma re_split_aux_word:
  "\<forall>c \<in> set w. \<not> is_space c \<Longrightarrow> w \<noteq> [] \<Longrightarrow>
   re_split_aux b acc (w @ rest) = re_split_aux False (acc @ w) rest"
proof (induction w arbitrary: acc b)
  case Nil
  then show ?case by simp
next
  case (Cons c cs)
  then show ?case by (cases "cs = []") auto
qed

lemma re_split_aux_join:
  "\<forall>w \<in> set ws. good_word w \<Longrightarrow> good_word v \<Longrightarrow>
   re_split_aux b [] (py_join '' '' (v # ws)) = v # ws"
proof (induction ws arbitrary: v b)
  case Nil
  then show ?case
    using re_split_aux_word [of v b "[]" "[]"] by (simp add: good_word_def)
next
  case (Cons u us)
  have "re_split_aux b [] (v @ '' '' @ py_join '' '' (u # us)) =
        re_split_aux False v ('' '' @ py_join '' '' (u # us))"
    using Cons.prems re_split_aux_word [of v b "[]"] by (simp add: good_word_def)
  also have "\<dots> = v # re_split_aux True [] (py_join '' '' (u # us))"
    by simp
  also have "\<dots> = v # u # us"
    using Cons by simp
  finally show ?case by simp
qed

lemma tokenize_source_text_split: "tokenize_source_text src = py_split src"
proof (cases "py_split src")
  case Nil
  then show ?thesis
    by (simp add: tokenize_source_text_def normalize_text_split)
next
  case (Cons v ws)
  then have g: "good_word v" "\<forall>w \<in> set ws. good_word w"
    using py_split_good [of src] by simp_all
  then have "py_join '' '' (v # ws) \<noteq> []"
    using py_join_empty [of "v # ws" "'' ''"] by simp
  then show ?thesis
    using Cons g
    by (simp add: tokenize_source_text_def normalize_text_split re_split_ws_def
        re_split_aux_join)
qed

lemma tokenize_good: "w \<in> set (tokenize_source_text src) \<Longrightarrow> good_word w"
  using py_split_good [of src] by (simp add: tokenize_source_text_split)

lemma py_strip_nonspace:
  assumes "py_strip s \<noteq> []"
  shows "normalize_text (py_strip s) \<noteq> []"
proof -
  let ?u = "dropWhile is_space (rev (dropWhile is_space s))"
  from assms have ne: "?u \<noteq> []" by (simp add: py_strip_def)
  then have "\<not> is_space (hd ?u)" by (rule hd_dropWhile)
  moreover from ne have "hd ?u \<in> set (py_strip s)" by (simp add: py_strip_def)
  ultimately show ?thesis by (auto simp: normalize_text_empty_iff)
qed

lemma load_word_bank_words:
  "w \<in> set (load_word_bank ls) \<Longrightarrow> normalize_text w \<noteq> []"
  by (induction ls) (auto simp: Let_def py_strip_nonspace split: if_splits)

section \<open>The invariant of the session\<close>

lemma random_choice_mem: "xs \<noteq> [] \<Longrightarrow> random_choice r xs \<in> set xs"
  by (simp add: random_choice_def)

lemma wf_set_current:
  "wf_session s \<Longrightarrow> normalize_text t \<noteq> [] \<Longrightarrow> wf_session (set_current t s)"
  by (simp add: wf_session_def set_current_def)

lemma wf_pick: "wf_session s \<Longrightarrow> wf_session (pick_new_word_from_bank r s)"
  by (auto simp: pick_new_word_from_bank_def wf_set_current random_choice_mem wf_session_def
      set_current_def)

lemma wf_source_mode: "wf_session (s\<lparr>source_mode := m\<rparr>) = wf_session s"
  by (simp add: wf_session_def)

lemma wf_pending: "wf_session (s\<lparr>pending_advance := b\<rparr>) = wf_session s"
  by (simp add: wf_session_def)

lemma wf_var_input: "wf_session (s\<lparr>var_input := v\<rparr>) = wf_session s"
  by (simp add: wf_session_def)

lemma wf_maybe_start: "wf_session s \<Longrightarrow> wf_session (maybe_start r s)"
  by (simp add: maybe_start_def wf_pick wf_source_mode)

lemma wf_quote_next:
  assumes "wf_session s" "quote_idx s < length (quote_tokens s) - 1"
  shows "wf_session (set_current (quote_tokens s ! (quote_idx s + 1)) (s\<lparr>quote_idx := quote_idx s + 1\<rparr>))"
proof -
  from assms(2) have lt: "quote_idx s + 1 < length (quote_tokens s)" by simp
  then have "quote_tokens s ! (quote_idx s + 1) \<in> set (quote_tokens s)" by (rule nth_mem)
  with assms(1) have "good_word (quote_tokens s ! (quote_idx s + 1))"
    by (simp add: wf_session_def)
  then have "normalize_text (quote_tokens s ! (quote_idx s + 1)) \<noteq> []"
    by (simp add: good_word_normalize good_word_def)
  with assms(1) lt show ?thesis
    by (simp add: wf_session_def set_current_def)
qed

lemma wf_advance_target: "wf_session s \<Longrightarrow> wf_session (advance_target r s)"
  using wf_quote_next [of "s\<lparr>pending_advance := False\<rparr>"]
  by (auto simp: advance_target_def Let_def wf_pick wf_pending)
    (simp_all add: wf_session_def)


lemma wf_on_next_word: "wf_session s \<Longrightarrow> wf_session (on_next_word r s)"
proof -
  assume wf: "wf_session s"
  let ?s = "s\<lparr>pending_advance := False, streak := 0\<rparr>"
  from wf have wf': "wf_session ?s" by (simp add: wf_session_def)
  show ?thesis
    using wf' wf_quote_next [of ?s] wf_pick [of ?s r]
    by (simp add: on_next_word_def Let_def)
qed

lemma wf_count_correct:
  "wf_session s \<Longrightarrow> wf_session (count_correct_and_schedule_advance r s)"
proof -
  assume wf: "wf_session s"
  show ?thesis
  proof (cases "pending_advance s")
    case True
    with wf show ?thesis by (simp add: count_correct_and_schedule_advance_def)
  next
    case False
    have "wf_session (advance_target r
            (s\<lparr>pending_advance := True, correct_attempts := correct_attempts s + 1,
               total_attempts := total_attempts s + 1, streak := streak s + 1,
               best_streak := max (best_streak s) (streak s + 1),
               total_correct_chars := total_correct_chars s
                 + int (length (normalize_text (case current_word s of None \<Rightarrow> [] | Some w \<Rightarrow> w)))\<rparr>))"
      using wf by (intro wf_advance_target) (simp add: wf_session_def)
    with False show ?thesis
      by (simp add: count_correct_and_schedule_advance_def Let_def)
  qed
qed

lemma wf_on_submit: "wf_session s \<Longrightarrow> wf_session (on_submit r s)"
  by (simp add: on_submit_def Let_def wf_count_correct)

lemma wf_on_text_change: "wf_session s \<Longrightarrow> wf_session (on_text_change r s)"
  by (simp add: on_text_change_def Let_def wf_count_correct)

lemma wf_restart_quote: "wf_session s \<Longrightarrow> wf_session (restart_quote src s)"
proof -
  assume wf: "wf_session s"
  let ?ts = "tokenize_source_text (py_strip src)"
  show ?thesis
  proof (cases "?ts = []")
    case True
    with wf show ?thesis by (simp add: restart_quote_def Let_def wf_session_def)
  next
    case False
    then have "?ts ! 0 \<in> set ?ts" by simp
    then have "good_word (?ts ! 0)" by (rule tokenize_good)
    then have "normalize_text (?ts ! 0) \<noteq> []"
      by (simp add: good_word_normalize good_word_def)
    with wf False show ?thesis
      by (auto simp: restart_quote_def Let_def wf_session_def set_current_def tokenize_good)
  qed
qed

lemma wf_use_quote_mode: "wf_session s \<Longrightarrow> wf_session (use_quote_mode src s)"
  by (simp add: use_quote_mode_def wf_restart_quote wf_source_mode)

lemma wf_use_bank_random: "wf_session s \<Longrightarrow> wf_session (use_bank_random r s)"
  by (simp add: use_bank_random_def Let_def wf_pick wf_source_mode)

lemma wf_word_bank:
  "wf_session s \<Longrightarrow> wf_session (s\<lparr>word_bank := load_word_bank ls\<rparr>)"
  by (simp add: wf_session_def load_word_bank_words)

lemma wf_on_load_word_bank: "wf_session s \<Longrightarrow> wf_session (on_load_word_bank file r s)"
  by (simp add: on_load_word_bank_def Let_def wf_maybe_start wf_word_bank split: option.splits)

lemma wf_steno_dict: "wf_session (s\<lparr>steno_dict := d\<rparr>) = wf_session s"
  by (simp add: wf_session_def)

lemma wf_on_load_dict: "wf_session s \<Longrightarrow> wf_session (on_load_dict file s)"
  by (simp add: on_load_dict_def wf_steno_dict split: option.splits sum.splits)

lemma wf_reset_session: "wf_session s \<Longrightarrow> wf_session (reset_session r s)"
  unfolding reset_session_def by (rule wf_maybe_start) (simp add: wf_session_def)

lemma wf_fresh: "wf_session fresh_session"
  by (simp add: wf_session_def fresh_session_def)

lemma wf_autoload:
  "wf_session s \<Longrightarrow> wf_session (autoload_last_files bank dct r s)"
  by (simp add: autoload_last_files_def Let_def wf_maybe_start wf_word_bank wf_steno_dict
      split: option.splits sum.splits)

lemma wf_app_init: "wf_session (app_init bank dct r0 r1)"
  by (simp add: app_init_def wf_autoload wf_reset_session wf_fresh)

lemma wf_step: "wf_session s \<Longrightarrow> wf_session (step e s)"
  by (cases e)
    (simp_all add: wf_on_load_word_bank wf_on_load_dict wf_on_next_word wf_reset_session
      wf_use_quote_mode wf_restart_quote wf_use_bank_random wf_on_text_change wf_on_submit
      wf_var_input)

lemma reachable_wf: "reachable s \<Longrightarrow> wf_session s"
  by (induction rule: reachable.induct) (simp_all add: wf_app_init wf_step)

text \<open>The guard flag is down whenever a transition has returned.\<close>

lemma pending_set_current [simp]:
  "pending_advance (set_current t s) = pending_advance s"
  by (simp add: set_current_def)

lemma pending_pick [simp]:
  "pending_advance (pick_new_word_from_bank r s) = pending_advance s"
  by (simp add: pick_new_word_from_bank_def)

lemma pending_maybe_start [simp]:
  "pending_advance (maybe_start r s) = pending_advance s"
  by (simp add: maybe_start_def)

lemma pending_advance_target [simp]: "\<not> pending_advance (advance_target r s)"
  by (simp add: advance_target_def Let_def)

lemma pending_on_next_word [simp]: "\<not> pending_advance (on_next_word r s)"
  by (simp add: on_next_word_def Let_def)

lemma pending_count_correct:
  "\<not> pending_advance s \<Longrightarrow> \<not> pending_advance (count_correct_and_schedule_advance r s)"
  by (simp add: count_correct_and_schedule_advance_def Let_def)

lemma pending_step: "\<not> pending_advance s \<Longrightarrow> \<not> pending_advance (step e s)"
  by (cases e)
    (simp_all add: on_load_word_bank_def on_load_dict_def reset_session_def use_quote_mode_def
      restart_quote_def use_bank_random_def on_text_change_def on_submit_def Let_def
      pending_count_correct split: option.splits sum.splits)

lemma pending_app_init: "\<not> pending_advance (app_init bank dct r0 r1)"
  by (simp add: app_init_def autoload_last_files_def reset_session_def fresh_session_def Let_def
      split: option.splits sum.splits)

lemma reachable_not_pending: "reachable s \<Longrightarrow> \<not> pending_advance s"
  by (induction rule: reachable.induct) (simp_all add: pending_app_init pending_step)

lemma reachable_correct_eq_total: "reachable s \<Longrightarrow> correct_attempts s = total_attempts s"
  using reachable_wf [of s] by (simp add: wf_session_def)

lemma reachable_run: "reachable s \<Longrightarrow> reachable (run es s)"
  by (induction es arbitrary: s) (simp_all add: reachable_step)

section \<open>Evaluation of concrete inputs\<close>

lemmas string_eval = normalize_text_def py_split_def py_strip_def is_space_def

lemmas loader_eval = should_invert_def key_strokeish_def val_stringish_def
  looks_like_stroke_def string_eval

lemmas session_eval = app_init_def autoload_last_files_def reset_session_def fresh_session_def
  maybe_start_def use_quote_mode_def restart_quote_def use_bank_random_def
  on_text_change_def on_submit_def count_correct_and_schedule_advance_def advance_target_def
  on_next_word_def pick_new_word_from_bank_def set_current_def no_word_def random_choice_def
  tokenize_source_text_def re_split_ws_def string_eval Let_def

lemma stuck_session_eq: "stuck_session =
  \<lparr>word_bank = [], steno_dict = [], source_mode = ''bank_random'',
    quote_tokens = [''hello''], quote_idx = 0, pending_advance = False,
    current_word = Some ''hello'', total_attempts = 0, correct_attempts = 0,
    total_correct_chars = 0, streak = 0, best_streak = 0, var_input = []\<rparr>"
  by (simp add: stuck_session_def session_eval)

lemma stuck_session_reachable: "reachable stuck_session"
  unfolding stuck_session_def by (rule reachable_run) (rule reachable_init)

section \<open>The guard against double counting\<close>

text \<open>
  C1: once the correct-attempt transition has fired for a target through one of the two
  paths (the write trace \<open>on_text_change\<close>, the Return key \<open>on_submit\<close>), the other
  path does not fire for the same target again, so the counters grow by one attempt per
  target.

  The code does not keep this where the advance leaves the target in place. In
  \<open>stuck_session\<close> the mode is the word bank and the bank is empty, so
  \<open>advance_target\<close> lowers the guard flag and returns at its check of the bank: the
  target and the entry stay as they are. Typing \<open>hello\<close> counts one attempt; the Return
  key then counts the same target a second time. Wherever the source has tokens or a
  bank the second path does nothing (lemma \<open>guard_holds_with_source\<close> below).
\<close>

theorem double_count_same_target:
  "current_word stuck_session = Some ''hello''
   \<and> total_attempts stuck_session = 0
   \<and> (let s1 = step (TypeText ''hello'' 0) stuck_session; s2 = step (Submit 0) s1 in
        current_word s1 = Some ''hello'' \<and> var_input s1 = ''hello''
        \<and> total_attempts s1 = 1 \<and> correct_attempts s1 = 1
        \<and> current_word s2 = Some ''hello''
        \<and> total_attempts s2 = 2 \<and> correct_attempts s2 = 2 \<and> streak s2 = 2
        \<and> best_streak s2 = 2 \<and> total_correct_chars s2 = 10)"
  by (simp add: stuck_session_eq session_eval)

section \<open>The two dictionaries of the docstring\<close>

text \<open>
  C4: the dictionary \<open>{"message": ["PHEPBLG"], "cellular": "KREL/HRER"}\<close> loads as
  \<open>{"message": ["PHEPBLG"], "cellular": ["KREL/HRER"]}\<close>, and the dictionary
  \<open>{"PHEPBLG": "message", "KREL/HRER": "cellular"}\<close>, keyed by strokes, loads as the
  same mapping.
\<close>

theorem load_dictionary_scenarios:
  "load_dictionary_json
     (JObj [(''message'', JList [JStr ''PHEPBLG'']), (''cellular'', JStr ''KREL/HRER'')])
   = Inr [(''message'', [''PHEPBLG'']), (''cellular'', [''KREL/HRER''])]
   \<and> load_dictionary_json
     (JObj [(''PHEPBLG'', JStr ''message''), (''KREL/HRER'', JStr ''cellular'')])
   = Inr [(''message'', [''PHEPBLG'']), (''cellular'', [''KREL/HRER''])]"
  by (simp add: loader_eval)

section \<open>Rounding to a float\<close>

lemma round_half_even_error: "\<bar>of_int (round_half_even z) - z\<bar> \<le> 1 / 2"
proof -
  have "of_int \<lfloor>z\<rfloor> \<le> z" "z < of_int \<lfloor>z\<rfloor> + 1" by linarith+
  then show ?thesis
    by (auto simp: round_half_even_def Let_def)
qed

lemma round_half_even_nonneg: "0 \<le> z \<Longrightarrow> 0 \<le> round_half_even z"
  by (auto simp: round_half_even_def Let_def)

lemma ilog2_lower:
  assumes "0 < x"
  shows "2 powi (ilog2 x) \<le> x"
proof -
  obtain p q where pq: "quotient_of x = (p, q)" by (cases "quotient_of x")
  then have q: "0 < q" by (rule quotient_of_denom_pos)
  from pq have x: "x = of_int p / of_int q" by (rule quotient_of_div)
  with assms q have p: "0 < p" by (simp add: zero_less_divide_iff)
  let ?e0 = "bitlen p - bitlen q"
  show ?thesis
  proof (cases "2 powi ?e0 \<le> x")
    case True
    then show ?thesis by (simp add: ilog2_def pq)
  next
    case False
    have bp: "(2::rat) powi (bitlen p - 1) \<le> of_int p"
    proof -
      have "1 \<le> bitlen p" using p by (simp add: bitlen_alt_def)
      then have "(2::rat) powi (bitlen p - 1) = 2 ^ nat (bitlen p - 1)"
        by (simp add: power_int_def)
      also have "\<dots> = of_int (2 ^ nat (bitlen p - 1))" by simp
      also have "\<dots> \<le> of_int p" using bitlen_bounds [OF p] by (simp only: of_int_le_iff)
      finally show ?thesis .
    qed
    have bq: "of_int q \<le> (2::rat) powi (bitlen q)"
    proof -
      have "of_int q \<le> (of_int (2 ^ nat (bitlen q)) :: rat)"
        using bitlen_bounds [OF q] by (simp only: of_int_le_iff) simp
      also have "\<dots> = 2 powi (bitlen q)"
        using bitlen_nonneg [of q] by (simp add: power_int_def)
      finally show ?thesis .
    qed
    have il: "ilog2 x = ?e0 - 1" using False by (simp add: ilog2_def pq)
    have e: "?e0 - 1 = (bitlen p - 1) - bitlen q" by simp
    have "(2::rat) powi (?e0 - 1) = 2 powi (bitlen p - 1) / 2 powi (bitlen q)"
      unfolding e by (rule power_int_diff) simp
    also have "\<dots> \<le> of_int p / 2 powi (bitlen q)"
      using bp by (simp add: divide_right_mono)
    also have "\<dots> \<le> of_int p / of_int q"
      using bq p q by (simp add: divide_left_mono)
    finally have "(2::rat) powi (?e0 - 1) \<le> of_int p / of_int q" .
    then show ?thesis unfolding il using x by simp
  qed
qed

lemma ilog2_upper:
  assumes "0 < x"
  shows "x < 2 powi (ilog2 x + 1)"
proof -
  obtain p q where pq: "quotient_of x = (p, q)" by (cases "quotient_of x")
  then have q: "0 < q" by (rule quotient_of_denom_pos)
  from pq have x: "x = of_int p / of_int q" by (rule quotient_of_div)
  with assms q have p: "0 < p" by (simp add: zero_less_divide_iff)
  let ?e0 = "bitlen p - bitlen q"
  show ?thesis
  proof (cases "2 powi ?e0 \<le> x")
    case False
    then show ?thesis by (simp add: ilog2_def pq)
  next
    case True
    have il: "ilog2 x = ?e0" using True by (simp add: ilog2_def pq)
    have bp: "of_int p < (2::rat) powi (bitlen p)"
    proof -
      have "of_int p < (of_int (2 ^ nat (bitlen p)) :: rat)"
        using bitlen_bounds [OF p] by (simp only: of_int_less_iff)
      also have "\<dots> = 2 powi (bitlen p)"
        using bitlen_nonneg [of p] by (simp add: power_int_def)
      finally show ?thesis .
    qed
    have bq: "(2::rat) powi (bitlen q - 1) \<le> of_int q"
    proof -
      have "1 \<le> bitlen q" using q by (simp add: bitlen_alt_def)
      then have "(2::rat) powi (bitlen q - 1) = 2 ^ nat (bitlen q - 1)"
        by (simp add: power_int_def)
      also have "\<dots> = of_int (2 ^ nat (bitlen q - 1))" by simp
      also have "\<dots> \<le> of_int q" using bitlen_bounds [OF q] by (simp only: of_int_le_iff)
      finally show ?thesis .
    qed
    have "of_int p / of_int q < (2::rat) powi (bitlen p) / of_int q"
      using bp q by (simp add: divide_strict_right_mono)
    also have "\<dots> \<le> 2 powi (bitlen p) / 2 powi (bitlen q - 1)"
      using bq q by (intro divide_left_mono) simp_all
    also have "\<dots> = 2 powi (bitlen p - (bitlen q - 1))"
      by (rule power_int_diff [symmetric]) simp
    also have "bitlen p - (bitlen q - 1) = ?e0 + 1" by simp
    finally have "of_int p / of_int q < (2::rat) powi (?e0 + 1)" .
    then show ?thesis unfolding il using x by simp
  qed
qed

lemma fl_round_error:
  assumes "0 \<le> x" "x \<le> 2 powi k" "- 1022 \<le> k"
  shows "\<bar>fl_round x - x\<bar> \<le> 2 powi (k - 53)"
proof (cases "x = 0")
  case True
  then show ?thesis by (simp add: fl_round_def)
next
  case False
  with assms(1) have pos: "0 < x" by simp
  let ?m = "max (ilog2 x - 52) (- 1074)"
  let ?u = "(2::rat) powi ?m"
  have u: "0 < ?u" by simp
  have "(2::rat) powi (ilog2 x) \<le> 2 powi k"
    using ilog2_lower [OF pos] assms(2) by simp
  then have "ilog2 x \<le> k"
    using power_int_strict_increasing [of k "ilog2 x" "2::rat"] by (cases "ilog2 x \<le> k") auto
  with assms(3) have "?m \<le> k - 52" by simp
  then have uk: "?u \<le> 2 powi (k - 52)" by (intro power_int_increasing) simp_all
  have "fl_round x - x = (of_int (round_half_even (x / ?u)) - x / ?u) * ?u"
    using pos u by (simp add: fl_round_def Let_def algebra_simps)
  then have "\<bar>fl_round x - x\<bar> = \<bar>of_int (round_half_even (x / ?u)) - x / ?u\<bar> * ?u"
    using u by (simp add: abs_mult)
  also have "\<dots> \<le> (1 / 2) * ?u"
    using round_half_even_error [of "x / ?u"] u by (intro mult_right_mono) simp_all
  also have "\<dots> \<le> (1 / 2) * 2 powi (k - 52)"
    using uk by simp
  also have "\<dots> = 2 powi (k - 53)"
  proof -
    have "(2::rat) powi ((k - 52) - 1) = 2 powi (k - 52) / 2 powi 1"
      by (rule power_int_diff) simp
    moreover have "(k - 52) - 1 = k - 53" by simp
    ultimately show ?thesis by simp
  qed
  finally show ?thesis .
qed

lemma fl_round_nonneg: "0 \<le> x \<Longrightarrow> 0 \<le> fl_round x"
  by (simp add: fl_round_def Let_def round_half_even_nonneg)


lemma fl_round_unit:
  assumes "0 \<le> x" "x \<le> 1"
  shows "\<bar>fl_round x - x\<bar> \<le> 1 / 2 ^ 53"
proof -
  have "\<bar>fl_round x - x\<bar> \<le> 2 powi (0 - 53)"
    using assms by (intro fl_round_error) simp_all
  moreover have "(2::rat) powi (0 - 53) = 1 / 2 ^ 53"
    by (simp add: power_int_def field_simps)
  ultimately show ?thesis by (simp only:)
qed

lemma fl_round_percent:
  assumes "0 \<le> x" "x \<le> 128"
  shows "\<bar>fl_round x - x\<bar> \<le> 1 / 2 ^ 46"
proof -
  have "\<bar>fl_round x - x\<bar> \<le> 2 powi (7 - 53)"
    using assms by (intro fl_round_error) (simp_all add: power_int_def)
  moreover have "(2::rat) powi (7 - 53) = 1 / 2 ^ 46"
    by (simp add: power_int_def field_simps)
  ultimately show ?thesis by (simp only:)
qed

section \<open>The accuracy\<close>

lemma quote_done_eq: "quote_done =
  \<lparr>word_bank = [], steno_dict = [], source_mode = ''quote_seq'',
    quote_tokens = [''hello''], quote_idx = 0, pending_advance = False,
    current_word = None, total_attempts = 1, correct_attempts = 1,
    total_correct_chars = 5, streak = 1, best_streak = 1, var_input = ''hello''\<rparr>"
  by (simp add: quote_done_def session_eval)

lemma quote_done_reachable: "reachable quote_done"
  unfolding quote_done_def by (rule reachable_run) (rule reachable_init)

text \<open>The two floats of a reachable state: the quotient 1 and the product 100.\<close>

lemma to_float_one: "to_float 1 = Some 1"
  by code_simp

lemma to_float_hundred: "to_float 100 = Some 100"
  by code_simp

lemma round_half_even_of_int: "round_half_even (of_int n) = n"
  by (simp add: round_half_even_def)

lemma compute_accuracy_reachable:
  "reachable s \<Longrightarrow> compute_accuracy s = Inr (if total_attempts s = 0 then 0 else 100)"
  using round_half_even_of_int [of 100]
  by (simp add: compute_accuracy_def reachable_correct_eq_total to_float_one to_float_hundred)

text \<open>
  For any counters with \<open>0 \<le> correct_attempts \<le> total_attempts\<close> and a positive
  total, no overflow arises, and the two roundings to a float move the value by less
  than \<open>2^(-45)\<close> before \<open>round\<close> takes the nearest integer.
\<close>

lemma compute_accuracy_close:
  assumes "0 \<le> correct_attempts s" "correct_attempts s \<le> total_attempts s"
    "0 < total_attempts s"
  shows "\<exists>a. compute_accuracy s = Inr a
           \<and> \<bar>of_int a - 100 * (of_int (correct_attempts s) / of_int (total_attempts s) :: rat)\<bar>
               \<le> 1 / 2 + 1 / 2 ^ 45
           \<and> 0 \<le> a \<and> a \<le> 100"
proof -
  let ?q = "of_int (correct_attempts s) / of_int (total_attempts s) :: rat"
  let ?q' = "fl_round ?q"
  let ?y = "fl_round (100 * ?q')"
  let ?a = "round_half_even ?y"
  have q: "0 \<le> ?q" "?q \<le> 1" using assms by (simp_all add: divide_le_eq)
  have eq: "\<bar>?q' - ?q\<bar> \<le> 1 / 2 ^ 53" using q by (rule fl_round_unit)
  have q'0: "0 \<le> ?q'" using q(1) by (rule fl_round_nonneg)
  have q'1: "?q' \<le> 1 + 1 / 2 ^ 53"
    using eq q(2) by (simp only: abs_le_iff) (simp, linarith?)
  have fq: "to_float ?q = Some ?q'"
    using q'0 q'1 by (simp add: to_float_def Let_def)
  have x: "0 \<le> 100 * ?q'" "100 * ?q' \<le> 128" using q'0 q'1 by simp_all
  have ey: "\<bar>?y - 100 * ?q'\<bar> \<le> 1 / 2 ^ 46" using x by (rule fl_round_percent)
  have y0: "0 \<le> ?y" using x(1) by (rule fl_round_nonneg)
  have y1: "?y \<le> 129"
    using ey x(2) by (simp only: abs_le_iff) (simp, linarith?)
  have fy: "to_float (100 * ?q') = Some ?y"
    using y0 y1 by (simp add: to_float_def Let_def)
  have ea: "\<bar>of_int ?a - ?y\<bar> \<le> 1 / 2" by (rule round_half_even_error)
  have val: "compute_accuracy s = Inr ?a"
    using assms(3) fq fy by (simp add: compute_accuracy_def)
  have close: "\<bar>of_int ?a - 100 * ?q\<bar> \<le> 1 / 2 + 1 / 2 ^ 45"
    using ea ey eq by (simp only: abs_le_iff) (simp, linarith?)
  have "of_int ?a \<le> 100 * ?q + 1 / 2 + 1 / 2 ^ 45"
    using close by (simp only: abs_le_iff) (simp, linarith?)
  with q(2) have "of_int ?a < (101 :: rat)" by (simp, linarith?)
  then have hi: "?a \<le> 100" by linarith
  have lo: "0 \<le> ?a" using y0 by (rule round_half_even_nonneg)
  from val close lo hi show ?thesis by blast
qed

text \<open>
  C8: in every reachable state \<open>correct_attempts \<le> total_attempts\<close>, and the accuracy
  is \<open>round(100 * correct_attempts / total_attempts)\<close> when \<open>total_attempts\<close> is
  positive and 0 when it is 0 (\<open>round\<close> as Python rounds, and as the nearest integer:
  the two agree there); so the accuracy lies between 0 and 100. The metric itself, on any
  counters with \<open>0 \<le> correct_attempts \<le> total_attempts\<close>, reachable or not, returns a
  value between 0 and 100, which is 0 for no attempts and otherwise an integer nearest
  to \<open>100 * correct_attempts / total_attempts\<close> up to the error of the two float
  operations, less than \<open>2^(-45)\<close>.
\<close>

theorem accuracy_rounded_ratio:
  "(reachable s \<longrightarrow>
      0 \<le> correct_attempts s \<and> correct_attempts s \<le> total_attempts s
      \<and> compute_accuracy s =
          Inr (if total_attempts s = 0 then 0
               else round_half_even
                      (100 * (of_int (correct_attempts s) / of_int (total_attempts s))))
      \<and> (total_attempts s \<noteq> 0 \<longrightarrow>
           round_half_even (100 * (of_int (correct_attempts s) / of_int (total_attempts s)))
           = round (100 * (of_int (correct_attempts s) / of_int (total_attempts s) :: rat))))
   \<and> (0 \<le> correct_attempts s \<and> correct_attempts s \<le> total_attempts s \<longrightarrow>
        (\<exists>a. compute_accuracy s = Inr a \<and> 0 \<le> a \<and> a \<le> 100
             \<and> (total_attempts s = 0 \<longrightarrow> a = 0)
             \<and> (0 < total_attempts s \<longrightarrow>
                  \<bar>of_int a
                    - 100 * (of_int (correct_attempts s) / of_int (total_attempts s) :: rat)\<bar>
                  \<le> 1 / 2 + 1 / 2 ^ 45)))"
proof -
  have reach: "0 \<le> correct_attempts s \<and> correct_attempts s \<le> total_attempts s
      \<and> compute_accuracy s =
          Inr (if total_attempts s = 0 then 0
               else round_half_even
                      (100 * (of_int (correct_attempts s) / of_int (total_attempts s))))
      \<and> (total_attempts s \<noteq> 0 \<longrightarrow>
           round_half_even (100 * (of_int (correct_attempts s) / of_int (total_attempts s)))
           = round (100 * (of_int (correct_attempts s) / of_int (total_attempts s) :: rat)))"
    if r: "reachable s"
  proof -
    have eq: "correct_attempts s = total_attempts s"
      using r by (rule reachable_correct_eq_total)
    have nn: "0 \<le> total_attempts s"
      using reachable_wf [OF r] by (simp add: wf_session_def)
    show ?thesis
      using round_half_even_of_int [of 100] compute_accuracy_reachable [OF r] eq nn by simp
  qed
  have any: "\<exists>a. compute_accuracy s = Inr a \<and> 0 \<le> a \<and> a \<le> 100
             \<and> (total_attempts s = 0 \<longrightarrow> a = 0)
             \<and> (0 < total_attempts s \<longrightarrow>
                  \<bar>of_int a
                    - 100 * (of_int (correct_attempts s) / of_int (total_attempts s) :: rat)\<bar>
                  \<le> 1 / 2 + 1 / 2 ^ 45)"
    if c: "0 \<le> correct_attempts s" "correct_attempts s \<le> total_attempts s"
  proof (cases "total_attempts s = 0")
    case True
    then show ?thesis by (simp add: compute_accuracy_def)
  next
    case False
    with c have pos: "0 < total_attempts s" by simp
    from compute_accuracy_close [OF c pos] pos show ?thesis by auto
  qed
  from reach any show ?thesis by blast
qed

theorem accuracy_rounded_ratio_witness:
  "total_attempts quote_done = 1 \<and> correct_attempts quote_done = 1
   \<and> compute_accuracy quote_done = Inr 100
   \<and> compute_accuracy (quote_done\<lparr>correct_attempts := 23, total_attempts := 40\<rparr>) = Inr 57
   \<and> \<bar>57 - 100 * (23 / 40 :: rat)\<bar> \<le> 1 / 2 + 1 / 2 ^ 45
   \<and> compute_accuracy (quote_done\<lparr>correct_attempts := 0, total_attempts := 0\<rparr>) = Inr 0"
proof -
  have a: "compute_accuracy (quote_done\<lparr>correct_attempts := 23, total_attempts := 40\<rparr>) = Inr 57"
    unfolding compute_accuracy_def by (simp add: quote_done_eq) code_simp
  show ?thesis
    using accuracy_rounded_ratio [of quote_done] quote_done_reachable a
      accuracy_rounded_ratio [of "quote_done\<lparr>correct_attempts := 23, total_attempts := 40\<rparr>"]
      accuracy_rounded_ratio [of "quote_done\<lparr>correct_attempts := 0, total_attempts := 0\<rparr>"]
    by (simp add: quote_done_eq)
qed

section \<open>The cursor of the quote\<close>

lemma quote_idx_set_current [simp]: "quote_idx (set_current t s) = quote_idx s"
  by (simp add: set_current_def)

lemma quote_idx_pick [simp]: "quote_idx (pick_new_word_from_bank r s) = quote_idx s"
  by (simp add: pick_new_word_from_bank_def)

lemma quote_idx_maybe_start [simp]: "quote_idx (maybe_start r s) = quote_idx s"
  by (simp add: maybe_start_def)

lemma quote_idx_advance_target: "quote_idx s \<le> quote_idx (advance_target r s)"
  by (simp add: advance_target_def Let_def)

lemma count_correct_unfold:
  "\<not> pending_advance s \<Longrightarrow>
   count_correct_and_schedule_advance r s =
     advance_target r
       (s\<lparr>pending_advance := True, correct_attempts := correct_attempts s + 1,
          total_attempts := total_attempts s + 1, streak := streak s + 1,
          best_streak := max (best_streak s) (streak s + 1),
          total_correct_chars := total_correct_chars s
            + int (length (normalize_text (case current_word s of None \<Rightarrow> [] | Some w \<Rightarrow> w)))\<rparr>)"
  by (simp add: count_correct_and_schedule_advance_def Let_def)

lemma quote_idx_count_correct:
  "quote_idx s \<le> quote_idx (count_correct_and_schedule_advance r s)"
proof (cases "pending_advance s")
  case True
  then show ?thesis by (simp add: count_correct_and_schedule_advance_def)
next
  case False
  show ?thesis
    unfolding count_correct_unfold [OF False]
    by (rule order_trans [OF _ quote_idx_advance_target]) simp
qed

lemma quote_idx_step: "\<not> is_restart e \<Longrightarrow> quote_idx s \<le> quote_idx (step e s)"
proof (cases e)
  case (TypeText v r)
  then show ?thesis
    using quote_idx_count_correct [of "s\<lparr>var_input := v\<rparr>" r]
    by (simp add: on_text_change_def Let_def)
next
  case (Submit r)
  then show ?thesis
    using quote_idx_count_correct [of s r] by (simp add: on_submit_def Let_def)
next
  case Escape
  then show ?thesis
    using quote_idx_count_correct [of "s\<lparr>var_input := []\<rparr>" 0]
    by (simp add: on_text_change_def Let_def)
qed (simp_all add: on_load_word_bank_def on_load_dict_def on_next_word_def reset_session_def
      use_bank_random_def Let_def split: option.splits sum.splits)


lemma quote_tokens_set_current [simp]: "quote_tokens (set_current t s) = quote_tokens s"
  by (simp add: set_current_def)

lemma quote_tokens_pick [simp]: "quote_tokens (pick_new_word_from_bank r s) = quote_tokens s"
  by (simp add: pick_new_word_from_bank_def)

lemma quote_tokens_maybe_start [simp]: "quote_tokens (maybe_start r s) = quote_tokens s"
  by (simp add: maybe_start_def)

lemma quote_tokens_advance_target [simp]:
  "quote_tokens (advance_target r s) = quote_tokens s"
  by (simp add: advance_target_def Let_def)

lemma quote_tokens_count_correct [simp]:
  "quote_tokens (count_correct_and_schedule_advance r s) = quote_tokens s"
  by (cases "pending_advance s")
    (simp_all add: count_correct_unfold, simp add: count_correct_and_schedule_advance_def)

lemma quote_tokens_step: "\<not> is_restart e \<Longrightarrow> quote_tokens (step e s) = quote_tokens s"
  by (cases e)
    (simp_all add: on_load_word_bank_def on_load_dict_def on_next_word_def reset_session_def
      use_bank_random_def on_text_change_def on_submit_def Let_def
      split: option.splits sum.splits)

lemma advance_target_at_end:
  assumes "source_mode s = ''quote_seq''" "quote_tokens s \<noteq> []"
    "quote_idx s = length (quote_tokens s) - 1"
  shows "current_word (advance_target r s) = None \<and> quote_idx (advance_target r s) = quote_idx s"
  using assms by (simp add: advance_target_def Let_def)

lemma source_mode_set_current [simp]: "source_mode (set_current t s) = source_mode s"
  by (simp add: set_current_def)

lemma source_mode_pick [simp]: "source_mode (pick_new_word_from_bank r s) = source_mode s"
  by (simp add: pick_new_word_from_bank_def)

lemma exhausted_step:
  assumes "source_mode s = ''quote_seq''" "quote_tokens s \<noteq> []"
    "current_word s = None" "quote_idx s = length (quote_tokens s) - 1"
    "\<not> is_restart e" "source_mode (step e s) = ''quote_seq''"
  shows "current_word (step e s) = None \<and> quote_idx (step e s) = quote_idx s"
proof (cases e)
  case (LoadWordBank f r)
  with assms show ?thesis
    by (auto simp: on_load_word_bank_def maybe_start_def Let_def split: option.splits if_splits)
next
  case (ResetSession r)
  with assms show ?thesis
    by (auto simp: reset_session_def maybe_start_def split: if_splits)
next
  case (UseBankRandom r)
  with assms show ?thesis
    by (auto simp: use_bank_random_def Let_def split: if_splits)
qed (use assms in \<open>simp_all add: on_load_dict_def on_next_word_def on_text_change_def
      on_submit_def no_word_def Let_def split: option.splits sum.splits\<close>)

text \<open>
  C5: in quote mode with a non-empty token sequence, in every reachable state: the
  cursor is at most \<open>len(tokens) - 1\<close>; no event other than a restart of the quote
  lowers the cursor or changes the tokens; the advance at the last token clears the
  target and leaves the cursor; and once the target is cleared at the last token, every
  event that is not a restart and stays in quote mode (typing, the Return key, a skip
  among them) leaves the target cleared and the cursor where it is.
\<close>

theorem quote_cursor:
  assumes "reachable s" "source_mode s = ''quote_seq''" "quote_tokens s \<noteq> []"
  shows "quote_idx s \<le> length (quote_tokens s) - 1
     \<and> (\<not> is_restart e \<longrightarrow>
          quote_idx s \<le> quote_idx (step e s) \<and> quote_tokens (step e s) = quote_tokens s)
     \<and> (quote_idx s = length (quote_tokens s) - 1 \<longrightarrow>
          current_word (advance_target r s) = None
          \<and> quote_idx (advance_target r s) = quote_idx s)
     \<and> (current_word s = None \<and> quote_idx s = length (quote_tokens s) - 1
          \<and> \<not> is_restart e \<and> source_mode (step e s) = ''quote_seq'' \<longrightarrow>
          current_word (step e s) = None \<and> quote_idx (step e s) = quote_idx s)"
proof -
  from reachable_wf [OF assms(1)] assms(3)
  have "quote_idx s < length (quote_tokens s)" by (simp add: wf_session_def)
  then have "quote_idx s \<le> length (quote_tokens s) - 1" by simp
  then show ?thesis
    using assms(2,3) quote_idx_step [of e s] quote_tokens_step [of e s]
      advance_target_at_end [of s r] exhausted_step [of s e]
    by blast
qed

theorem quote_cursor_witness:
  "quote_idx quote_done \<le> length (quote_tokens quote_done) - 1
   \<and> quote_idx (step (Submit 0) quote_done) = 0
   \<and> quote_tokens (step (Submit 0) quote_done) = [''hello'']
   \<and> current_word (advance_target 0 quote_done) = None
   \<and> current_word (step (Submit 0) quote_done) = None"
  using quote_cursor [OF quote_done_reachable, of "Submit 0" 0]
  by (simp add: quote_done_eq on_submit_def no_word_def)

section \<open>The write trace on an empty entry\<close>

lemma on_text_change_empty_input:
  "on_text_change r (s\<lparr>var_input := []\<rparr>) = s\<lparr>var_input := []\<rparr>"
  "on_text_change r (set_current t s) = set_current t s"
  by (simp_all add: on_text_change_def set_current_def Let_def normalize_text_def py_strip_def
      py_split_def)

section \<open>The match of the entry against the target\<close>

lemma counters_set_current [simp]:
  "total_attempts (set_current t s) = total_attempts s"
  "correct_attempts (set_current t s) = correct_attempts s"
  "streak (set_current t s) = streak s"
  "best_streak (set_current t s) = best_streak s"
  "total_correct_chars (set_current t s) = total_correct_chars s"
  by (simp_all add: set_current_def)

lemma counters_pick [simp]:
  "total_attempts (pick_new_word_from_bank r s) = total_attempts s"
  "correct_attempts (pick_new_word_from_bank r s) = correct_attempts s"
  "streak (pick_new_word_from_bank r s) = streak s"
  "best_streak (pick_new_word_from_bank r s) = best_streak s"
  "total_correct_chars (pick_new_word_from_bank r s) = total_correct_chars s"
  by (simp_all add: pick_new_word_from_bank_def)

lemma counters_advance_target [simp]:
  "total_attempts (advance_target r s) = total_attempts s"
  "correct_attempts (advance_target r s) = correct_attempts s"
  "streak (advance_target r s) = streak s"
  "best_streak (advance_target r s) = best_streak s"
  "total_correct_chars (advance_target r s) = total_correct_chars s"
  by (simp_all add: advance_target_def Let_def)

lemma count_correct_counted:
  "\<not> pending_advance s \<Longrightarrow> current_word s = Some t \<Longrightarrow>
   counted_once t s (count_correct_and_schedule_advance r s)"
  by (simp add: count_correct_unfold counted_once_def)

lemma normalize_text_Nil [simp]: "normalize_text [] = []"
  by (simp add: normalize_text_def py_strip_def py_split_def)

lemma on_text_change_cases:
  assumes "\<not> pending_advance s" "current_word s = Some t" "normalize_text t \<noteq> []"
  shows "on_text_change r s =
           (if normalize_text (var_input s) = normalize_text t
            then count_correct_and_schedule_advance r s else s)"
proof -
  from assms(3) have "t \<noteq> []" by auto
  with assms show ?thesis
    by (auto simp: on_text_change_def no_word_def Let_def)
qed

lemma on_submit_cases:
  assumes "\<not> pending_advance s" "current_word s = Some t" "normalize_text t \<noteq> []"
  shows "on_submit r s =
           (if normalize_text (var_input s) = normalize_text t
            then count_correct_and_schedule_advance r s else s)"
proof -
  from assms(3) have "t \<noteq> []" by auto
  with assms show ?thesis
    by (auto simp: on_submit_def no_word_def Let_def)
qed

lemma counted_once_var_input:
  "counted_once t (s\<lparr>var_input := b\<rparr>) s' = counted_once t s s'"
  by (simp add: counted_once_def)

lemma quote_started_eq: "quote_started =
  \<lparr>word_bank = [], steno_dict = [], source_mode = ''quote_seq'',
    quote_tokens = [''good'', ''night.''], quote_idx = 0, pending_advance = False,
    current_word = Some ''good'', total_attempts = 0, correct_attempts = 0,
    total_correct_chars = 0, streak = 0, best_streak = 0, var_input = []\<rparr>"
  by (simp add: quote_started_def session_eval)

lemma quote_started_reachable: "reachable quote_started"
  unfolding quote_started_def by (rule reachable_run) (rule reachable_init)

text \<open>
  C2: for every typed buffer \<open>b\<close> and every active target \<open>t\<close> of a reachable state,
  the correct-attempt transition fires if and only if \<open>normalize(b)\<close> equals
  \<open>normalize(t)\<close>, through the write trace (the entry set to \<open>b\<close>) and through the
  Return key (the entry holding \<open>b\<close>): on a match the counters move by one attempt,
  otherwise the state is left as it is. A buffer with the words of the target
  (whitespace runs and surrounding whitespace apart) matches; a buffer whose characters
  other than whitespace differ from the target's, as with another case or another
  punctuation, does not.
\<close>

theorem match_iff_normalized:
  assumes "reachable s" "current_word s = Some t"
  shows "(let s' = step (TypeText b r) s in
            if normalize_text b = normalize_text t then counted_once t s s'
            else s' = s\<lparr>var_input := b\<rparr>)
       \<and> (let s' = step (Submit r) s in
            if normalize_text (var_input s) = normalize_text t then counted_once t s s'
            else s' = s)
       \<and> (py_split b = py_split t \<longrightarrow> normalize_text b = normalize_text t)
       \<and> (filter (\<lambda>c. \<not> is_space c) b \<noteq> filter (\<lambda>c. \<not> is_space c) t \<longrightarrow>
            normalize_text b \<noteq> normalize_text t)"
proof -
  have np: "\<not> pending_advance s" using assms(1) by (rule reachable_not_pending)
  have ne: "normalize_text t \<noteq> []"
    using reachable_wf [OF assms(1)] assms(2) by (simp add: wf_session_def)
  have typed: "let s' = step (TypeText b r) s in
            if normalize_text b = normalize_text t then counted_once t s s'
            else s' = s\<lparr>var_input := b\<rparr>"
    using on_text_change_cases [of "s\<lparr>var_input := b\<rparr>" t r]
      count_correct_counted [of "s\<lparr>var_input := b\<rparr>" t r] np ne assms(2)
    by (simp add: counted_once_var_input)
  have submitted: "let s' = step (Submit r) s in
            if normalize_text (var_input s) = normalize_text t then counted_once t s s'
            else s' = s"
    using on_submit_cases [of s t r] count_correct_counted [of s t r] np ne assms(2)
    by simp
  have words: "py_split b = py_split t \<longrightarrow> normalize_text b = normalize_text t"
    by (simp add: normalize_eq_iff)
  have chars: "filter (\<lambda>c. \<not> is_space c) b \<noteq> filter (\<lambda>c. \<not> is_space c) t \<longrightarrow>
            normalize_text b \<noteq> normalize_text t"
    using normalize_text_nonspace [of b] normalize_text_nonspace [of t] by auto
  from typed submitted words chars show ?thesis by blast
qed

theorem match_iff_normalized_witness:
  "current_word quote_started = Some ''good''
   \<and> py_split ''  good '' = py_split ''good''
   \<and> counted_once ''good'' quote_started (step (TypeText ''  good '' 0) quote_started)
   \<and> filter (\<lambda>c. \<not> is_space c) ''Good'' \<noteq> filter (\<lambda>c. \<not> is_space c) ''good''
   \<and> step (TypeText ''Good'' 0) quote_started = quote_started\<lparr>var_input := ''Good''\<rparr>
   \<and> step (Submit 0) quote_started = quote_started"
proof -
  have cw: "current_word quote_started = Some ''good''" by (simp add: quote_started_eq)
  have w: "py_split ''  good '' = py_split ''good''"
    by (simp add: py_split_def is_space_def)
  have c: "filter (\<lambda>c. \<not> is_space c) ''Good'' \<noteq> filter (\<lambda>c. \<not> is_space c) ''good''"
    by (simp add: is_space_def)
  have v: "normalize_text (var_input quote_started) \<noteq> normalize_text ''good''"
    by (simp add: quote_started_eq string_eval)
  show ?thesis
    using match_iff_normalized [OF quote_started_reachable cw, of "''  good ''" 0]
      match_iff_normalized [OF quote_started_reachable cw, of "''Good''" 0] cw w c v
    by (simp add: Let_def)
qed

section \<open>The manual skip and the advance\<close>

lemma quote_last_eq: "quote_last =
  \<lparr>word_bank = [], steno_dict = [], source_mode = ''quote_seq'',
    quote_tokens = [''cat''], quote_idx = 0, pending_advance = False,
    current_word = Some ''cat'', total_attempts = 0, correct_attempts = 0,
    total_correct_chars = 0, streak = 0, best_streak = 0, var_input = []\<rparr>"
  by (simp add: quote_last_def session_eval)


text \<open>
  C6, as the claim states it: the manual skip on an active target advances to a new
  target. At the last token of the quote it does not: the skip of the session
  \<open>quote_last\<close>, whose target \<open>cat\<close> is the last token, leaves the whole state as it
  is.
\<close>

theorem skip_at_last_token:
  "current_word quote_last = Some ''cat''
   \<and> source_mode quote_last = ''quote_seq''
   \<and> step (NextWord 0) quote_last = quote_last"
  by (simp add: quote_last_eq on_next_word_def)

text \<open>
  C6, amended: in every state the manual skip sets the streak to 0 and leaves
  \<open>total_attempts\<close>, \<open>correct_attempts\<close>, the correct characters and the best streak
  as they are (it does not run the correct-attempt transition). In quote mode with a
  token after the cursor it moves the cursor by one and makes that token the target; in
  quote mode at the last token (or with no tokens) it leaves the target and the cursor;
  in bank mode with a non-empty bank it makes a word drawn from the bank the target; with
  an empty bank it leaves the target.
\<close>

theorem manual_skip:
  "streak (on_next_word r s) = 0
   \<and> total_attempts (on_next_word r s) = total_attempts s
   \<and> correct_attempts (on_next_word r s) = correct_attempts s
   \<and> total_correct_chars (on_next_word r s) = total_correct_chars s
   \<and> best_streak (on_next_word r s) = best_streak s
   \<and> current_word (on_next_word r s) =
       (if source_mode s = ''quote_seq'' then
          (if quote_idx s + 1 < length (quote_tokens s)
           then Some (quote_tokens s ! (quote_idx s + 1)) else current_word s)
        else
          (if word_bank s \<noteq> [] then Some (random_choice r (word_bank s))
           else current_word s))
   \<and> quote_idx (on_next_word r s) =
       (if source_mode s = ''quote_seq'' \<and> quote_idx s + 1 < length (quote_tokens s)
        then quote_idx s + 1 else quote_idx s)"
  by (auto simp: on_next_word_def pick_new_word_from_bank_def set_current_def Let_def)




section \<open>The dictionary loader on every object\<close>

lemma allowed_char:
  "c \<in> set ''ABCDEFGHIJKLMNOPQRSTUVWXYZabcdefghijklmnopqrstuvwxyz-/*0123456789''
   \<longleftrightarrow> is_ascii_letter c \<or> is_ascii_digit c \<or> is_separator c"
  by (cases c) (simp add: is_ascii_letter_def is_ascii_digit_def is_separator_def Let_def)

lemma looks_like_stroke_shaped: "looks_like_stroke k = stroke_shaped k"
  by (auto simp add: looks_like_stroke_def stroke_shaped_def allowed_char is_separator_def
      simp del: set_simps)

lemma strokes_of_simps [simp]:
  "strokes_of t [] = []"
  "strokes_of t ((k, v) # items) =
     (if is_jstr v \<and> normalize_text (the_jstr v) = t then k # strokes_of t items
      else strokes_of t items)"
  by (simp_all add: strokes_of_def)

lemma entries_of_simps [simp]:
  "entries_of t [] = []"
  "entries_of t ((k, v) # items) =
     (if normalize_text k = t \<and> json_strokes v \<noteq> None
      then the (json_strokes v) # entries_of t items
      else entries_of t items)"
  by (simp_all add: entries_of_def)

lemma invert_loop_lookup:
  "map_of (invert_loop items out) t =
     (case map_of out t of
        None \<Rightarrow> (if strokes_of t items = [] then None else Some (strokes_of t items))
      | Some old \<Rightarrow> Some (old @ strokes_of t items))"
proof (induction items arbitrary: out)
  case Nil
  then show ?case by (simp split: option.splits)
next
  case (Cons e es)
  obtain k v where e: "e = (k, v)" by (cases e)
  show ?case
  proof (cases "is_jstr v")
    case False
    then show ?thesis unfolding e using Cons.IH [of out] by (simp split: option.splits)
  next
    case True
    show ?thesis
    proof (cases "map_of out (normalize_text (the_jstr v))")
      case None
      then show ?thesis
        unfolding e
        using True Cons.IH [of "AList.update (normalize_text (the_jstr v)) [k] out"]
        by (auto simp: Let_def update_conv' split: option.splits)
    next
      case (Some ss)
      then show ?thesis
        unfolding e
        using True Cons.IH [of "AList.update (normalize_text (the_jstr v)) (ss @ [k]) out"]
        by (auto simp: Let_def update_conv' split: option.splits)
    qed
  qed
qed

lemma direct_step:
  "direct_loop ((k, v) # rest) out =
     direct_loop rest
       (case json_strokes v of None \<Rightarrow> out
        | Some ss \<Rightarrow> AList.update (normalize_text k) ss out)"
  by (cases v) (simp_all add: Let_def)

lemma direct_loop_lookup:
  "map_of (direct_loop items out) t =
     (if entries_of t items = [] then map_of out t else Some (last (entries_of t items)))"
proof (induction items arbitrary: out)
  case Nil
  then show ?case by simp
next
  case (Cons e es)
  obtain k v where e: "e = (k, v)" by (cases e)
  show ?case
  proof (cases "json_strokes v")
    case None
    then show ?thesis
      unfolding e using Cons.IH [of out] by (simp add: direct_step del: direct_loop.simps)
  next
    case (Some ss)
    then show ?thesis
      unfolding e
      using Cons.IH [of "AList.update (normalize_text k) ss out"]
      by (auto simp: direct_step update_conv' simp del: direct_loop.simps)
  qed
qed

lemma invert_loop_keys:
  "fst ` set (invert_loop items out) \<subseteq> fst ` set out \<union> range normalize_text"
proof (induction items arbitrary: out)
  case Nil
  then show ?case by simp
next
  case (Cons e es)
  obtain k v where e: "e = (k, v)" by (cases e)
  show ?case
  proof (cases "is_jstr v")
    case False
    then show ?thesis using Cons.IH [of out] by (simp add: e)
  next
    case True
    let ?t = "normalize_text (the_jstr v)"
    obtain out' where o: "invert_loop (e # es) out = invert_loop es out'"
      and k: "fst ` set out' = {?t} \<union> fst ` set out"
      using True by (cases "map_of out ?t") (simp_all add: e Let_def dom_update)
    show ?thesis using Cons.IH [of out'] k unfolding o by auto
  qed
qed

lemma direct_loop_keys:
  "fst ` set (direct_loop items out) \<subseteq> fst ` set out \<union> range normalize_text"
proof (induction items arbitrary: out)
  case Nil
  then show ?case by simp
next
  case (Cons e es)
  obtain k v where e: "e = (k, v)" by (cases e)
  show ?case
  proof (cases "json_strokes v")
    case None
    then show ?thesis
      using Cons.IH [of out] by (simp add: e direct_step del: direct_loop.simps)
  next
    case (Some ss)
    then show ?thesis
      using Cons.IH [of "AList.update (normalize_text k) ss out"]
      by (auto simp: e direct_step dom_update simp del: direct_loop.simps)
  qed
qed

lemma should_invert_orientation: "should_invert items = orientation_test items"
  by (simp add: should_invert_def orientation_test_def key_strokeish_def val_stringish_def
      looks_like_stroke_shaped mult.commute Let_def)

lemmas shape_eval = stroke_shaped_def is_ascii_letter_def is_ascii_digit_def is_separator_def

text \<open>
  C3, as the claim states it, with the quotients \<open>N/4\<close> and \<open>3N/4\<close> taken exactly: an
  object of five entries, one key stroke-shaped and every value a string, has
  \<open>1 < 5/4\<close>, so the claim sends it to the translation-to-strokes branch. The loader
  compares with \<open>5 // 4 = 1\<close> and inverts it.
\<close>

theorem quarter_of_five:
  "length five_entries = 5
   \<and> length (filter (\<lambda>(k, v). stroke_shaped k) five_entries) = 1
   \<and> length (filter (\<lambda>(k, v). is_jstr v) five_entries) = 5
   \<and> exact_quarter_test five_entries = False
   \<and> load_dictionary_json (JObj five_entries) =
       Inr [(''x'', [''A-B'']), (''y'', [''b'']), (''z'', [''c'']), (''u'', [''d'']),
            (''w'', [''e''])]
   \<and> direct_loop five_entries [] =
       [(''A-B'', [''x'']), (''b'', [''y'']), (''c'', [''z'']), (''d'', [''u'']),
        (''e'', [''w''])]"
  by (simp add: five_entries_def exact_quarter_test_def shape_eval loader_eval)

text \<open>
  C3, amended: a key is classified as stroke-shaped if and only if every character of it
  is a letter (A to Z, a to z), a digit (0 to 9), \<open>-\<close>, \<open>/\<close> or \<open>*\<close> and it contains one
  of \<open>-\<close>, \<open>/\<close>, \<open>*\<close>. For an object of \<open>N\<close> entries the loader takes the
  stroke-to-translation branch if and only if the count of stroke-shaped keys is at
  least \<open>max(1, N div 4)\<close> and the count of string values is at least
  \<open>max(1, 3N div 4)\<close>, the quotients rounded down; then a translation \<open>t\<close> is a key of
  the result exactly when some string value normalises to \<open>t\<close>, and its strokes are the
  keys of those entries in the order of the entries. Otherwise the loader takes the
  translation-to-strokes branch.
\<close>

theorem loader_orientation:
  "looks_like_stroke k = stroke_shaped k
   \<and> load_dictionary_json (JObj items) =
       Inr (if orientation_test items then invert_loop items [] else direct_loop items [])
   \<and> map_of (invert_loop items []) t =
       (if strokes_of t items = [] then None else Some (strokes_of t items))"
proof -
  have "load_dictionary_json (JObj items) =
       Inr (if orientation_test items then invert_loop items [] else direct_loop items [])"
  proof (cases "items = []")
    case True
    then show ?thesis by (simp add: orientation_test_def)
  next
    case False
    then show ?thesis by (simp add: should_invert_orientation)
  qed
  then show ?thesis
    by (simp add: looks_like_stroke_shaped invert_loop_lookup)
qed

theorem loader_orientation_witness:
  "looks_like_stroke ''KA/AT'' \<and> \<not> looks_like_stroke ''KAT''
   \<and> orientation_test two_strokes
   \<and> load_dictionary_json (JObj two_strokes) = Inr [(''cat'', [''KAT'', ''KA/AT''])]
   \<and> strokes_of ''cat'' two_strokes = [''KAT'', ''KA/AT'']"
  using loader_orientation [of "''KA/AT''" two_strokes "''cat''"]
    loader_orientation [of "''KAT''" two_strokes "''cat''"]
  by (simp add: two_strokes_def orientation_test_def shape_eval string_eval)

text \<open>
  C10: in the translation-to-strokes branch, when several keys normalise to the same
  translation \<open>t\<close>, the result holds under \<open>t\<close> the stroke list of the last such entry
  with a supported value; in the stroke-to-translation branch the strokes of all the
  entries for \<open>t\<close> accumulate.
\<close>

theorem last_entry_wins:
  "\<exists>d. load_dictionary_json (JObj items) = Inr d
       \<and> map_of d t =
           (if should_invert items
            then (if strokes_of t items = [] then None else Some (strokes_of t items))
            else (if entries_of t items = [] then None else Some (last (entries_of t items))))"
  by (cases "items = []")
    (simp_all add: should_invert_def invert_loop_lookup direct_loop_lookup)

theorem last_entry_wins_witness:
  "\<not> should_invert two_spellings
   \<and> entries_of ''good night'' two_spellings = [[''S1''], [''S2'', ''S3'']]
   \<and> load_dictionary_json (JObj two_spellings) = Inr [(''good night'', [''S2'', ''S3''])]"
  using last_entry_wins [of two_spellings "''good night''"]
  by (simp add: two_spellings_def loader_eval)

text \<open>
  What the loader does to a key: it normalises the whitespace, in both branches, so
  every key of the mapping it returns equals its own \<open>normalize_text\<close> form.
\<close>

lemma loaded_keys_normalized:
  assumes "load_dictionary_json raw = Inr d" "k \<in> fst ` set d"
  shows "normalize_text k = k"
proof -
  from assms(1) obtain items where raw: "raw = JObj items"
    by (cases raw) simp_all
  have "fst ` set d \<subseteq> range normalize_text"
    using assms(1) invert_loop_keys [of items "[]"] direct_loop_keys [of items "[]"]
    by (auto simp: raw split: if_splits)
  with assms(2) obtain x where "k = normalize_text x" by auto
  then show ?thesis by (simp add: normalize_text_idem)
qed

text \<open>
  C7: every key of the mapping the loader returns is lower-cased translation text with
  the punctuation stripped, the form under which \<open>_hint_for\<close> looks a word up
  (\<open>word.strip(...).lower()\<close>).

  The loader does not bring the keys into that form: it stores a translation with its
  capitals and its punctuation. The lookup then asks for the cleaned word and misses the
  entry, in both orientations of the file: \<open>{"Hello": "HEL"}\<close> is stored under
  \<open>Hello\<close> and looked up under \<open>hello\<close>, \<open>{"PHR-FPLT": "Mr."}\<close> is stored under
  \<open>Mr.\<close> and looked up under \<open>mr\<close>. A key in the cleaned form is found.
\<close>

theorem capital_key_kept:
  "load_dictionary_json (JObj [(''Hello'', JStr ''HEL'')]) = Inr [(''Hello'', [''HEL''])]
   \<and> hint_clean ''Hello'' = ''hello''
   \<and> hint_for [(''Hello'', [''HEL''])] ''Hello'' 20 = None
   \<and> load_dictionary_json (JObj [(''PHR-FPLT'', JStr ''Mr.'')]) = Inr [(''Mr.'', [''PHR-FPLT''])]
   \<and> hint_clean ''Mr.'' = ''mr''
   \<and> hint_for [(''Mr.'', [''PHR-FPLT''])] ''Mr.'' 20 = None
   \<and> load_dictionary_json (JObj [(''hello'', JStr ''HEL'')]) = Inr [(''hello'', [''HEL''])]
   \<and> hint_for [(''hello'', [''HEL''])] ''Hello'' 20 = Some ([''HEL''], False)"
  by code_simp

section \<open>Where the guard holds\<close>

text \<open>
  In quote mode with no tokens there is no target, in every reachable state.
\<close>

lemma quote_empty_step:
  assumes "source_mode s = ''quote_seq'' \<and> quote_tokens s = [] \<longrightarrow> current_word s = None"
  shows "source_mode (step e s) = ''quote_seq'' \<and> quote_tokens (step e s) = [] \<longrightarrow>
         current_word (step e s) = None"
proof (cases e)
  case (LoadWordBank f r)
  with assms show ?thesis
    by (auto simp: on_load_word_bank_def maybe_start_def pick_new_word_from_bank_def
        set_current_def Let_def split: option.splits if_splits)
next
  case (LoadDict f)
  with assms show ?thesis
    by (auto simp: on_load_dict_def split: option.splits sum.splits)
next
  case (NextWord r)
  with assms show ?thesis
    by (auto simp: on_next_word_def pick_new_word_from_bank_def set_current_def Let_def
        split: if_splits)
next
  case (ResetSession r)
  with assms show ?thesis
    by (auto simp: reset_session_def maybe_start_def pick_new_word_from_bank_def
        set_current_def split: if_splits)
next
  case (UseQuoteMode src)
  then show ?thesis
    by (auto simp: use_quote_mode_def restart_quote_def set_current_def Let_def split: if_splits)
next
  case (RestartQuote src)
  then show ?thesis
    by (auto simp: restart_quote_def set_current_def Let_def split: if_splits)
next
  case (UseBankRandom r)
  then show ?thesis
    by (auto simp: use_bank_random_def pick_new_word_from_bank_def set_current_def Let_def
        split: if_splits)
next
  case (TypeText v r)
  with assms show ?thesis
    by (auto simp: on_text_change_def no_word_def Let_def count_correct_and_schedule_advance_def
        advance_target_def pick_new_word_from_bank_def set_current_def split: if_splits)
next
  case (Submit r)
  with assms show ?thesis
    by (auto simp: on_submit_def no_word_def Let_def count_correct_and_schedule_advance_def
        advance_target_def pick_new_word_from_bank_def set_current_def split: if_splits)
next
  case Escape
  with assms show ?thesis
    by (auto simp: on_text_change_def no_word_def Let_def count_correct_and_schedule_advance_def
        advance_target_def pick_new_word_from_bank_def set_current_def split: if_splits)
qed

lemma reachable_quote_empty:
  "reachable s \<Longrightarrow>
   source_mode s = ''quote_seq'' \<and> quote_tokens s = [] \<longrightarrow> current_word s = None"
proof (induction rule: reachable.induct)
  case (reachable_init bank dct r0 r1)
  then show ?case
    by (auto simp: app_init_def autoload_last_files_def reset_session_def fresh_session_def
        maybe_start_def pick_new_word_from_bank_def set_current_def Let_def
        split: option.splits sum.splits if_splits)
next
  case (reachable_step s e)
  from reachable_step.IH show ?case by (rule quote_empty_step)
qed

text \<open>
  Where the source has tokens or a bank, the advance either clears the target or empties
  the entry, so the Return key after a counted attempt finds nothing to count.
\<close>

lemma advance_target_clears:
  assumes "source_mode s = ''quote_seq'' \<and> quote_tokens s \<noteq> [] \<or>
           source_mode s \<noteq> ''quote_seq'' \<and> word_bank s \<noteq> []"
  shows "current_word (advance_target r s) = None \<or> var_input (advance_target r s) = []"
  using assms
  by (auto simp: advance_target_def pick_new_word_from_bank_def set_current_def Let_def)

lemma guard_holds_with_source:
  assumes "reachable s" "current_word s = Some t"
    "source_mode s = ''quote_seq'' \<or> word_bank s \<noteq> []"
  shows "step (Submit r2) (step (TypeText b r1) s) = step (TypeText b r1) s"
proof -
  let ?s0 = "s\<lparr>var_input := b\<rparr>"
  let ?s1 = "step (TypeText b r1) s"
  have np: "\<not> pending_advance s" using assms(1) by (rule reachable_not_pending)
  have ne: "normalize_text t \<noteq> []"
    using reachable_wf [OF assms(1)] assms(2) by (simp add: wf_session_def)
  have r1: "reachable ?s1" using assms(1) by (rule reachable_step)
  have np1: "\<not> pending_advance ?s1" using r1 by (rule reachable_not_pending)
  have src: "source_mode s = ''quote_seq'' \<and> quote_tokens s \<noteq> [] \<or>
             source_mode s \<noteq> ''quote_seq'' \<and> word_bank s \<noteq> []"
    using assms(2,3) reachable_quote_empty [OF assms(1)] by auto
  have s1: "?s1 = (if normalize_text b = normalize_text t
                   then count_correct_and_schedule_advance r1 ?s0 else ?s0)"
    using on_text_change_cases [of ?s0 t r1] np ne assms(2) by simp
  show ?thesis
  proof (cases "current_word ?s1")
    case None
    then show ?thesis by (simp add: on_submit_def no_word_def)
  next
    case (Some t')
    have ne': "normalize_text t' \<noteq> []"
      using reachable_wf [OF r1] Some by (simp add: wf_session_def)
    have "normalize_text (var_input ?s1) \<noteq> normalize_text t'"
    proof (cases "normalize_text b = normalize_text t")
      case False
      with s1 Some assms(2) show ?thesis by simp
    next
      case True
      with s1 np have "?s1 = advance_target r1
          (?s0\<lparr>pending_advance := True, correct_attempts := correct_attempts ?s0 + 1,
          total_attempts := total_attempts ?s0 + 1, streak := streak ?s0 + 1,
          best_streak := max (best_streak ?s0) (streak ?s0 + 1),
          total_correct_chars := total_correct_chars ?s0
            + int (length (normalize_text (case current_word ?s0 of None \<Rightarrow> [] | Some w \<Rightarrow> w)))\<rparr>)"
        (is "_ = advance_target r1 ?s6")
        using count_correct_unfold [of ?s0 r1] by simp
      moreover have "current_word (advance_target r1 ?s6) = None
                     \<or> var_input (advance_target r1 ?s6) = []"
        using src by (intro advance_target_clears) simp
      ultimately have "var_input ?s1 = []" using Some by auto
      with ne' show ?thesis by simp
    qed
    then show ?thesis
      using on_submit_cases [OF np1 Some ne', of r2] by simp
  qed
qed

end
